theory Spec2Isabelle
  imports Main "HOL-Library.Multiset" "HOL-Library.Monad_Syntax" "HOL-Library.Word"
begin

unbundle bit_operations_syntax

section \<open>Einstein summation over flat strided buffers (casadi/core/runtime/shared.hpp)\<close>

text \<open>
  The file holds two template functions: \<open>einstein_process\<close> compiles three shapes and
  three index specifications into an iteration plan, and \<open>einstein_eval\<close> walks the plan,
  calling \<open>Contraction\<close> at every leaf.

  C++ \<open>int\<close> has 32 bits. The products the builder takes over one operand's shape
  (the running stride of lines 119-145) are bounded by the operand's element count, which
  lines 47-49 assert, as long as the extents are positive, and are modelled by the
  mathematical integers. The iteration count \<open>n_iter\<close> of lines 100-102 is a product
  over the labels of all three operands, and the base offset of lines 124, 133 and 142 a
  sum of products with literals; no assertion bounds either. They are modelled with the
  wrap-around of a 32-bit \<open>int\<close>, which is what the compiled code computes (the C++
  standard leaves signed overflow undefined). Offsets into the data buffers are
  mathematical integers: an offset outside the range of \<open>int\<close> is outside every
  buffer. Every other undefined behaviour of the source (reading a \<open>std::vector\<close> or a
  buffer out of range, dividing by zero) is a value of the model: \<open>UndefinedBehaviour\<close>
  in the plan builder, \<open>None\<close> in the executor.
\<close>

subsection \<open>Data\<close>

text \<open>
  The observable interface of the container type \<open>T\<close> of \<open>einstein_process\<close>: the
  builder calls \<open>is_vector()\<close>, \<open>is_dense()\<close> and \<open>numel()\<close> and nothing else.
\<close>

record tensor =
  is_vector :: bool
  is_dense :: bool
  numel :: int

text \<open>
  The four output parameters of \<open>einstein_process\<close>, passed by reference: their value
  on entry is part of the input, their value on exit part of the result.
\<close>

record plan =
  iter_dims :: "int list"
  strides_a :: "int list"
  strides_b :: "int list"
  strides_c :: "int list"

text \<open>
  One constructor for each group of \<open>casadi_assert\<close> lines (42-44, 47-49, 51-54, and the
  three inside the label loops), and one for undefined behaviour, which is not an
  exception of the program.
\<close>

datatype error = NotDenseVector | NumelMismatch | SpecLength | LabelConflict | UndefinedBehaviour

text \<open>
  The value a 32-bit \<open>int\<close> holds after an operation whose mathematical result is
  \<open>x\<close>: \<open>x\<close> itself when it fits, its two's-complement wrap-around otherwise.
\<close>

definition wrap_int :: "int \<Rightarrow> int" where
  "wrap_int x = sint (word_of_int x :: 32 word)"

text \<open>
  \<open>std::map<int, int>\<close> as the sequence its iterator yields: the entries in ascending
  order of key, every key once.
\<close>

type_synonym dim_map = "(int \<times> int) list"

fun map_insert :: "int \<Rightarrow> int \<Rightarrow> dim_map \<Rightarrow> dim_map" where
  "map_insert k v [] = [(k, v)]"
| "map_insert k v ((k', v') # m) =
     (if k < k' then (k, v) # (k', v') # m
      else if k = k' then (k, v) # m
      else (k', v') # map_insert k v m)"

subsection \<open>Helpers of std\_vector\_tools.hpp\<close>

text \<open>
  Modelled from the spec: \<open>product\<close> (std\_vector\_tools.hpp is not among the sources):
  "its product equals the number of elements in the associated dense buffer", the
  product of all entries of a shape.
\<close>

definition product_vec :: "int list \<Rightarrow> int" where
  "product_vec values = fold (\<lambda>v r. r * v) values 1"

text \<open>
  Modelled from the spec: \<open>lookupvector\<close> (std\_vector\_tools.hpp is not among the
  sources): "look up its position in the sorted \<open>iter_dims\<close> sequence". \<open>lu[k]\<close> is the
  position of \<open>k\<close> in the key sequence; a key that is absent has no entry, and reading
  it is undefined.
\<close>

fun lookupvector :: "int list \<Rightarrow> int \<Rightarrow> nat option" where
  "lookupvector [] k = None"
| "lookupvector (x # xs) k =
     (if x = k then Some 0 else map_option Suc (lookupvector xs k))"

subsection \<open>The plan builder\<close>

text \<open>
  Lines 59-68, 70-79 and 81-90, one loop for each operand: a non-negative entry is
  skipped before its extent is read; a negative entry reads \<open>dim[i]\<close> (undefined when
  the shape is shorter than the spec, which the assertions exclude for A and B only) and
  either records the extent or asserts that it is the recorded one.
\<close>

fun unify :: "int list \<Rightarrow> int list \<Rightarrow> dim_map \<Rightarrow> error + dim_map" where
  "unify [] ds m = Inr m"
| "unify (x # xs) ds m =
     (if x \<ge> 0 then unify xs (tl ds) m
      else case ds of
        [] \<Rightarrow> Inl UndefinedBehaviour
      | d # ds' \<Rightarrow>
          (case map_of m x of
             None \<Rightarrow> unify xs ds' (map_insert x d m)
           | Some e \<Rightarrow> if e = d then unify xs ds' m else Inl LabelConflict))"

text \<open>Lines 56-90: the three loops in sequence on one map.\<close>

definition build_dim_map ::
  "int list \<Rightarrow> int list \<Rightarrow> int list \<Rightarrow> int list \<Rightarrow> int list \<Rightarrow> int list \<Rightarrow> error + dim_map" where
  "build_dim_map dim_a dim_b dim_c a b c =
     (case unify a dim_a [] of
        Inl e \<Rightarrow> Inl e
      | Inr m1 \<Rightarrow>
          (case unify b dim_b m1 of
             Inl e \<Rightarrow> Inl e
           | Inr m2 \<Rightarrow> unify c dim_c m2))"

text \<open>
  \<open>std::sort(first, last, comp)\<close> (line 95) is a library function and not a stable
  sort. Its contract: for a comparator that is a strict weak ordering, the result is a
  permutation of the input in which no element is less, by the comparator, than an
  element before it; the order of equivalent elements is the library's choice. The sort
  is therefore a parameter of the builder, and \<open>std_sort\<close> is all that is known of it.
\<close>

type_synonym sorter = "(int \<times> int \<Rightarrow> int \<times> int \<Rightarrow> bool) \<Rightarrow> dim_map \<Rightarrow> dim_map"

definition strict_weak_order :: "('a \<Rightarrow> 'a \<Rightarrow> bool) \<Rightarrow> bool" where
  "strict_weak_order lt \<longleftrightarrow>
     (\<forall>x. \<not> lt x x) \<and>
     (\<forall>x y z. lt x y \<and> lt y z \<longrightarrow> lt x z) \<and>
     (\<forall>x y z. \<not> lt x y \<and> \<not> lt y x \<and> \<not> lt y z \<and> \<not> lt z y \<longrightarrow>
        \<not> lt x z \<and> \<not> lt z x)"

definition std_sort :: "sorter \<Rightarrow> bool" where
  "std_sort srt \<longleftrightarrow>
     (\<forall>lt xs. strict_weak_order lt \<longrightarrow>
        mset (srt lt xs) = mset xs \<and> sorted_wrt (\<lambda>x y. \<not> lt y x) (srt lt xs))"

text \<open>
  The comparator the builder passes, line 96:
  \<open>[](const std::pair<int, int>& a, const std::pair<int, int>& b) { return a.second < b.second;}\<close>.
\<close>

definition by_extent :: "int \<times> int \<Rightarrow> int \<times> int \<Rightarrow> bool" where
  "by_extent a b \<longleftrightarrow> snd a < snd b"

text \<open>
  Lines 98-105: one pass over the sorted pairs with three accumulators, \<open>n_iter\<close>,
  \<open>dim_map_keys\<close> and \<open>iter_dims\<close>; the last is the output parameter and is appended to.
  \<open>n_iter *= e.second\<close> is a multiplication of two \<open>int\<close>.
\<close>

definition collect :: "dim_map \<Rightarrow> int list \<Rightarrow> int \<times> int list \<times> int list" where
  "collect dim_map_pair dims0 =
     fold (\<lambda>e (n_iter, dim_map_keys, dims).
             (wrap_int (n_iter * snd e), dim_map_keys @ [- fst e], dims @ [snd e]))
       dim_map_pair (1, [], dims0)"

text \<open>
  Lines 119-127, 128-136 and 137-145, one loop for each operand. A negative entry stores
  the running product in slot \<open>1 + lu[-label]\<close>; a literal adds \<open>literal * cumprod\<close> to
  slot 0; then \<open>cumprod\<close> is multiplied by \<open>dim[j]\<close>, which is read for every \<open>j\<close>.
  No assertion bounds a literal, so \<open>strides[0] += literal * cumprod\<close> is a
  multiplication and an addition of \<open>int\<close>.
\<close>

fun stride_pass ::
  "(int \<Rightarrow> nat option) \<Rightarrow> int list \<Rightarrow> int list \<Rightarrow> int \<Rightarrow> int list \<Rightarrow> error + int list" where
  "stride_pass lu [] ds cumprod strides = Inr strides"
| "stride_pass lu (x # xs) ds cumprod strides =
     (if x < 0 then
        (case lu (- x) of
           None \<Rightarrow> Inl UndefinedBehaviour
         | Some pos \<Rightarrow>
             if 1 + pos < length strides then
               (case ds of
                  [] \<Rightarrow> Inl UndefinedBehaviour
                | d # ds' \<Rightarrow> stride_pass lu xs ds' (cumprod * d) (strides[1 + pos := cumprod]))
             else Inl UndefinedBehaviour)
      else
        (if strides = [] then Inl UndefinedBehaviour
         else
           (case ds of
              [] \<Rightarrow> Inl UndefinedBehaviour
            | d # ds' \<Rightarrow>
                stride_pass lu xs ds' (cumprod * d)
                  (strides[0 := wrap_int (strides ! 0 + wrap_int (x * cumprod))]))))"

text \<open>
  \<open>einstein_process\<close>, lines 35-148. The result is the returned \<open>n_iter\<close> or the error,
  together with the output parameters as the call leaves them.
\<close>

definition einstein_process ::
  "sorter \<Rightarrow> tensor \<Rightarrow> tensor \<Rightarrow> tensor \<Rightarrow> int list \<Rightarrow> int list \<Rightarrow> int list \<Rightarrow>
   int list \<Rightarrow> int list \<Rightarrow> int list \<Rightarrow> plan \<Rightarrow> (error + int) \<times> plan" where
  "einstein_process srt A B C dim_a dim_b dim_c a b c p =
     (if \<not> (is_vector A \<and> is_dense A) then (Inl NotDenseVector, p)
      else if \<not> (is_vector B \<and> is_dense B) then (Inl NotDenseVector, p)
      else if \<not> (is_vector C \<and> is_dense C) then (Inl NotDenseVector, p)
      else if numel A \<noteq> product_vec dim_a then (Inl NumelMismatch, p)
      else if numel B \<noteq> product_vec dim_b then (Inl NumelMismatch, p)
      else if numel C \<noteq> product_vec dim_c then (Inl NumelMismatch, p)
      else if length dim_a \<noteq> length a then (Inl SpecLength, p)
      else if length dim_b \<noteq> length b then (Inl SpecLength, p)
      else if \<not> length c \<le> length a + length b then (Inl SpecLength, p)
      else
        (case build_dim_map dim_a dim_b dim_c a b c of
           Inl e \<Rightarrow> (Inl e, p)
         | Inr dm \<Rightarrow>
             (case collect (srt by_extent dm) (iter_dims p) of
                (n_iter, dim_map_keys, dims) \<Rightarrow>
                  let zeros = replicate (length dims + 1) 0;
                      p1 = p\<lparr>iter_dims := dims, strides_a := zeros,
                               strides_b := zeros, strides_c := zeros\<rparr>;
                      lu = (if dim_map_keys \<noteq> [] then lookupvector dim_map_keys
                            else (\<lambda>k. None))
                  in
                    (case stride_pass lu a dim_a 1 zeros of
                       Inl e \<Rightarrow> (Inl e, p1)
                     | Inr sa \<Rightarrow>
                         (case stride_pass lu b dim_b 1 zeros of
                            Inl e \<Rightarrow> (Inl e, p1\<lparr>strides_a := sa\<rparr>)
                          | Inr sb \<Rightarrow>
                              (case stride_pass lu c dim_c 1 zeros of
                                 Inl e \<Rightarrow> (Inl e, p1\<lparr>strides_a := sa, strides_b := sb\<rparr>)
                               | Inr sc \<Rightarrow>
                                   (Inr n_iter,
                                    p1\<lparr>strides_a := sa, strides_b := sb,
                                        strides_c := sc\<rparr>)))))))"

subsection \<open>The combine operation\<close>

text \<open>
  Lines 150-158. The generic \<open>Contraction\<close> is \<open>r += a*b\<close> on whatever the element type
  provides as \<open>+\<close> and \<open>*\<close>; the specialisation for \<open>bvec_t\<close> (an unsigned machine word
  whose width is fixed in casadi\_runtime.hpp, here a parameter) is \<open>r |= a | b\<close>. Both
  return the new value of \<open>r\<close>.
\<close>

definition Contraction :: "'a::{plus,times} \<Rightarrow> 'a \<Rightarrow> 'a \<Rightarrow> 'a" where
  "Contraction a b r = r + a * b"

definition Contraction_bvec :: "'w::len word \<Rightarrow> 'w word \<Rightarrow> 'w word \<Rightarrow> 'w word" where
  "Contraction_bvec a b r = r OR (a OR b)"

subsection \<open>The executor\<close>

text \<open>
  \<open>v[i]\<close> on a \<open>std::vector<int>\<close> or through a pointer into it: defined inside the
  vector only.
\<close>

definition vec_at :: "int list \<Rightarrow> int \<Rightarrow> int option" where
  "vec_at v i = (if 0 \<le> i \<and> i < int (length v) then Some (v ! nat i) else None)"

text \<open>C++ \<open>/\<close> and \<open>%\<close> on \<open>int\<close>: the quotient is truncated towards zero, the
  remainder has the sign of the dividend, and a zero divisor is undefined.\<close>

definition c_div :: "int \<Rightarrow> int \<Rightarrow> int option" where
  "c_div x y = (if y = 0 then None else Some (sgn x * sgn y * (\<bar>x\<bar> div \<bar>y\<bar>)))"

definition c_mod :: "int \<Rightarrow> int \<Rightarrow> int option" where
  "c_mod x y = (if y = 0 then None else Some (sgn x * (\<bar>x\<bar> mod \<bar>y\<bar>)))"

text \<open>
  The three data pointers that move together, as offsets in elements from \<open>a_in\<close>,
  \<open>b_in\<close> and \<open>c_in\<close>.
\<close>

type_synonym ptrs = "int \<times> int \<times> int"

fun advance :: "ptrs \<Rightarrow> ptrs \<Rightarrow> ptrs" where
  "advance (a, b, c) (sa, sb, sc) = (a + sa, b + sb, c + sc)"

text \<open>
  A \<open>for (int i = 0; i < count; ++i) { body; a += stridea; b += strideb; c += stridec; }\<close>
  loop: lines 229-252 are three of them, nested. The body works on a state \<open>'s\<close> and
  may be undefined.
\<close>

fun strided_loop ::
  "(ptrs \<Rightarrow> 's \<Rightarrow> 's option) \<Rightarrow> nat \<Rightarrow> ptrs \<Rightarrow> ptrs \<Rightarrow> 's \<Rightarrow> 's option" where
  "strided_loop body 0 p stride s = Some s"
| "strided_loop body (Suc k) p stride s =
     (case body p s of
        None \<Rightarrow> None
      | Some s' \<Rightarrow> strided_loop body k (advance p stride) stride s')"

text \<open>
  Lines 217-224, "Construct indices": \<open>k\<close> iterations from index \<open>j\<close> on, reading
  \<open>ptr_iter_dims[j]\<close> and \<open>ptr_strides_x[j]\<close>, which is \<open>strides_x[j+1]\<close>.
\<close>

fun construct_indices ::
  "nat \<Rightarrow> nat \<Rightarrow> int list \<Rightarrow> int list \<Rightarrow> int list \<Rightarrow> int list \<Rightarrow> int \<Rightarrow> ptrs \<Rightarrow> ptrs option" where
  "construct_indices 0 j dims sa sb sc sub p = Some p"
| "construct_indices (Suc k) j dims sa sb sc sub p =
     (case p of (a, b, c) \<Rightarrow>
        do {
          d \<leftarrow> vec_at dims (int j);
          ind \<leftarrow> c_mod sub d;
          xa \<leftarrow> vec_at sa (int j + 1);
          xb \<leftarrow> vec_at sb (int j + 1);
          xc \<leftarrow> vec_at sc (int j + 1);
          sub' \<leftarrow> c_div sub d;
          construct_indices k (Suc j) dims sa sb sc sub' (a + xa * ind, b + xb * ind, c + xc * ind)
        })"

text \<open>Lines 176-179, 182-185 and 188-191: the extent and the three strides of level \<open>i\<close>.\<close>

definition level :: "int list \<Rightarrow> int list \<Rightarrow> int list \<Rightarrow> int list \<Rightarrow> int \<Rightarrow> (int \<times> ptrs) option" where
  "level dims sa sb sc i =
     do {
       d \<leftarrow> vec_at dims i;
       xa \<leftarrow> vec_at sa (i + 1);
       xb \<leftarrow> vec_at sb (i + 1);
       xc \<leftarrow> vec_at sc (i + 1);
       Some (d, (xa, xb, xc))
     }"

text \<open>A \<open>for (int i = 0; i < n; ++i)\<close> loop whose body is given the counter.\<close>

fun for_loop :: "nat list \<Rightarrow> (nat \<Rightarrow> 's \<Rightarrow> 's option) \<Rightarrow> 's \<Rightarrow> 's option" where
  "for_loop [] body s = Some s"
| "for_loop (i # is) body s =
     (case body i s of None \<Rightarrow> None | Some s' \<Rightarrow> for_loop is body s')"

text \<open>
  \<open>einstein_eval\<close>, lines 160-257, with the call at the leaf (line 239) as a parameter:
  \<open>leaf\<close> is given the three offsets and the state it works on.
\<close>

definition einstein_eval_with ::
  "(ptrs \<Rightarrow> 's \<Rightarrow> 's option) \<Rightarrow> int \<Rightarrow> int list \<Rightarrow> int list \<Rightarrow> int list \<Rightarrow> int list \<Rightarrow>
   's \<Rightarrow> 's option" where
  "einstein_eval_with leaf n_iter dims sa sb sc s =
     (if n_iter = 0 then Some s
      else
        do {
          let n = int (length dims);
          l3 \<leftarrow> (if n > 0 then level dims sa sb sc (n - 1) else Some (1, (0, 0, 0)));
          l2 \<leftarrow> (if n > 1 then level dims sa sb sc (n - 2) else Some (1, (0, 0, 0)));
          l1 \<leftarrow> (if n > 2 then level dims sa sb sc (n - 3) else Some (1, (0, 0, 0)));
          a_perm \<leftarrow> vec_at sa 0;
          b_perm \<leftarrow> vec_at sb 0;
          c_perm \<leftarrow> vec_at sc 0;
          n_outer \<leftarrow> c_div n_iter (fst l1 * fst l2 * fst l3);
          for_loop [0..<nat n_outer]
            (\<lambda>i s1.
               do {
                 p \<leftarrow> construct_indices (nat (n - 3)) 0 dims sa sb sc (int i)
                        (a_perm, b_perm, c_perm);
                 strided_loop
                   (\<lambda>p1. strided_loop
                      (\<lambda>p2. strided_loop leaf (nat (fst l3)) p2 (snd l3))
                      (nat (fst l2)) p1 (snd l2))
                   (nat (fst l1)) p (snd l1) s1
               })
            s
        })"

text \<open>
  The leaf of the source: \<open>Contraction<T>(*a3, *b3, *c3)\<close> reads one element of each
  buffer and writes the result buffer; outside a buffer the access is undefined. The
  two input buffers are \<open>const\<close>, the state is the result buffer. The three buffers
  are three objects: the result buffer overlaps neither input.
\<close>

definition in_buffer :: "'a list \<Rightarrow> int \<Rightarrow> bool" where
  "in_buffer buf i \<longleftrightarrow> 0 \<le> i \<and> i < int (length buf)"

definition contract_at ::
  "('a \<Rightarrow> 'a \<Rightarrow> 'a \<Rightarrow> 'a) \<Rightarrow> 'a list \<Rightarrow> 'a list \<Rightarrow> ptrs \<Rightarrow> 'a list \<Rightarrow> 'a list option" where
  "contract_at contraction a_in b_in p c_in =
     (case p of (a3, b3, c3) \<Rightarrow>
        if in_buffer a_in a3 \<and> in_buffer b_in b3 \<and> in_buffer c_in c3
        then Some (c_in[nat c3 := contraction (a_in ! nat a3) (b_in ! nat b3) (c_in ! nat c3)])
        else None)"

definition einstein_eval ::
  "('a \<Rightarrow> 'a \<Rightarrow> 'a \<Rightarrow> 'a) \<Rightarrow> int \<Rightarrow> int list \<Rightarrow> int list \<Rightarrow> int list \<Rightarrow> int list \<Rightarrow>
   'a list \<Rightarrow> 'a list \<Rightarrow> 'a list \<Rightarrow> 'a list option" where
  "einstein_eval contraction n_iter dims sa sb sc a_in b_in c_in =
     einstein_eval_with (contract_at contraction a_in b_in) n_iter dims sa sb sc c_in"

text \<open>
  The same executor with a leaf that only records where it is called: the sequence of
  offset triples at which the source calls \<open>Contraction\<close>.
\<close>

definition einstein_eval_trace ::
  "int \<Rightarrow> int list \<Rightarrow> int list \<Rightarrow> int list \<Rightarrow> int list \<Rightarrow> ptrs list option" where
  "einstein_eval_trace n_iter dims sa sb sc =
     einstein_eval_with (\<lambda>p tr. Some (tr @ [p])) n_iter dims sa sb sc []"

section \<open>Notions the properties are stated with\<close>

text \<open>
  The key sequence \<open>dim_map_keys\<close> of lines 98-105 is local to the builder and not part
  of the plan: variable \<open>i\<close> of the plan is the label \<open>- (dim_map_keys ! i)\<close>.
\<close>

definition dim_map_keys :: "sorter \<Rightarrow> dim_map \<Rightarrow> int list" where
  "dim_map_keys srt dm = map (\<lambda>e. - fst e) (srt by_extent dm)"


text \<open>
  A sort that meets the contract of \<open>std::sort\<close>, for the concrete runs: insertion from
  the right, each element placed before the first element it is less than.
\<close>

fun insert_by :: "('a \<Rightarrow> 'a \<Rightarrow> bool) \<Rightarrow> 'a \<Rightarrow> 'a list \<Rightarrow> 'a list" where
  "insert_by lt x [] = [x]"
| "insert_by lt x (y # ys) = (if lt x y then x # y # ys else y # insert_by lt x ys)"

definition insertion_sort :: "('a \<Rightarrow> 'a \<Rightarrow> bool) \<Rightarrow> 'a list \<Rightarrow> 'a list" where
  "insertion_sort lt xs = foldr (insert_by lt) xs []"

text \<open>The output parameters as a caller passes them who has just constructed them.\<close>

definition empty_plan :: plan where
  "empty_plan = \<lparr>iter_dims = [], strides_a = [], strides_b = [], strides_c = []\<rparr>"

text \<open>A dense vector of \<open>n\<close> elements, as the builder sees it.\<close>

definition dense_vector :: "int \<Rightarrow> tensor" where
  "dense_vector n = \<lparr>is_vector = True, is_dense = True, numel = n\<rparr>"

text \<open>
  The element an operand is addressed at when the iteration variables have the values
  \<open>idx\<close>: the base offset of slot 0 plus, for every variable, its stride times its value.
\<close>

definition address :: "int list \<Rightarrow> int list \<Rightarrow> int" where
  "address strides idx = hd strides + sum_list (map2 (*) (tl strides) idx)"

text \<open>
  Calling a leaf at a given sequence of offset triples, one after the other: what an
  executor does that visits these triples in this order.
\<close>

fun visit_all :: "(ptrs \<Rightarrow> 's \<Rightarrow> 's option) \<Rightarrow> ptrs list \<Rightarrow> 's \<Rightarrow> 's option" where
  "visit_all leaf [] s = Some s"
| "visit_all leaf (p # ps) s =
     (case leaf p s of None \<Rightarrow> None | Some s' \<Rightarrow> visit_all leaf ps s')"

text \<open>
  The naive loop nest of the spec, one loop for each iteration variable: every tuple of
  values \<open>0 \<le> idx ! k < dims ! k\<close>, the first variable in the outermost loop, and each
  operand addressed at base offset plus stride times value, summed over the variables.
\<close>

definition index_tuples :: "int list \<Rightarrow> int list list" where
  "index_tuples dims = product_lists (map (\<lambda>d. map int [0..<nat d]) dims)"

definition naive_loop_nest :: "int list \<Rightarrow> int list \<Rightarrow> int list \<Rightarrow> int list \<Rightarrow> ptrs list" where
  "naive_loop_nest dims sa sb sc =
     map (\<lambda>idx. (address sa idx, address sb idx, address sc idx)) (index_tuples dims)"

text \<open>
  Auxiliary notions of the proofs about the executor: the pointers after \<open>i\<close> steps of a
  stride, the visits of the three inner loops from a start pointer, and the digits the
  "Construct indices" loop takes off a counter.
\<close>

fun offset_by :: "ptrs \<Rightarrow> ptrs \<Rightarrow> int \<Rightarrow> ptrs" where
  "offset_by (a, b, c) (sa, sb, sc) i = (a + sa * i, b + sb * i, c + sc * i)"

definition block_visits :: "nat \<Rightarrow> nat \<Rightarrow> nat \<Rightarrow> ptrs \<Rightarrow> ptrs \<Rightarrow> ptrs \<Rightarrow> ptrs \<Rightarrow> ptrs list" where
  "block_visits n1 n2 n3 st1 st2 st3 p =
     concat (map (\<lambda>i1. concat (map (\<lambda>i2. map (\<lambda>i3.
         offset_by (offset_by (offset_by p st1 (int i1)) st2 (int i2)) st3 (int i3))
       [0..<n3]) [0..<n2])) [0..<n1])"

fun digits :: "int list \<Rightarrow> int \<Rightarrow> int list" where
  "digits [] sub = []"
| "digits (d # ds) sub = (sub mod d) # digits ds (sub div d)"

fun undigits :: "int list \<Rightarrow> int list \<Rightarrow> int" where
  "undigits (d # ds) (x # xs) = x + d * undigits ds xs"
| "undigits ds xs = 0"

text \<open>
  The visits of \<open>einstein_eval\<close> as a function of the plan alone: the same reads of
  the plan, with the start pointers of all outer steps computed first.
\<close>

definition plan_visits ::
  "int \<Rightarrow> int list \<Rightarrow> int list \<Rightarrow> int list \<Rightarrow> int list \<Rightarrow> ptrs list option" where
  "plan_visits n_iter dims sa sb sc =
     (if n_iter = 0 then Some []
      else
        do {
          let n = int (length dims);
          l3 \<leftarrow> (if n > 0 then level dims sa sb sc (n - 1) else Some (1, (0, 0, 0)));
          l2 \<leftarrow> (if n > 1 then level dims sa sb sc (n - 2) else Some (1, (0, 0, 0)));
          l1 \<leftarrow> (if n > 2 then level dims sa sb sc (n - 3) else Some (1, (0, 0, 0)));
          a_perm \<leftarrow> vec_at sa 0;
          b_perm \<leftarrow> vec_at sb 0;
          c_perm \<leftarrow> vec_at sc 0;
          n_outer \<leftarrow> c_div n_iter (fst l1 * fst l2 * fst l3);
          ps \<leftarrow> those (map (\<lambda>i. construct_indices (nat (n - 3)) 0 dims sa sb sc (int i)
                              (a_perm, b_perm, c_perm)) [0..<nat n_outer]);
          Some (concat (map (block_visits (nat (fst l1)) (nat (fst l2)) (nat (fst l3))
                              (snd l1) (snd l2) (snd l3)) ps))
        })"

section \<open>Properties\<close>

subsection \<open>The helpers and the dimension map\<close>

lemma product_vec_fold: "fold (\<lambda>v r. r * v) vs (r0::int) = r0 * prod_list vs"
  by (induction vs arbitrary: r0) (simp_all add: mult.assoc)

lemma product_vec_prod_list: "product_vec vs = prod_list vs"
  by (simp add: product_vec_def product_vec_fold)

lemma wrap_int_0: "wrap_int 0 = 0"
  by (simp add: wrap_int_def)

lemma wrap_int_1: "wrap_int 1 = 1"
  by (simp add: wrap_int_def)

lemma wrap_int_mult: "wrap_int (wrap_int x * y) = wrap_int (x * y)"
  by (simp add: wrap_int_def wi_hom_syms)


lemma collect_fold:
  "fold (\<lambda>e (n_iter, dim_map_keys, dims).
             (wrap_int (n_iter * snd e), dim_map_keys @ [- fst e], dims @ [snd e])) ps
        (wrap_int n, ks, ds)
   = (wrap_int (n * prod_list (map snd ps)), ks @ map (\<lambda>e. - fst e) ps, ds @ map snd ps)"
  by (induction ps arbitrary: n ks ds) (simp_all add: mult.assoc wrap_int_mult)

lemma collect_eq:
  "collect ps dims0 =
     (wrap_int (prod_list (map snd ps)), map (\<lambda>e. - fst e) ps, dims0 @ map snd ps)"
  using collect_fold [of ps 1 "[]" dims0] by (simp add: collect_def wrap_int_1)

lemma map_of_map_insert: "map_of (map_insert k v m) = (map_of m)(k \<mapsto> v)"
  by (induction k v m rule: map_insert.induct) (auto simp: fun_eq_iff)

lemma keys_map_insert: "fst ` set (map_insert k v m) = insert k (fst ` set m)"
  by (induction k v m rule: map_insert.induct) auto


lemma unify_keys:
  "unify xs ds m = Inr m' \<Longrightarrow> fst ` set m' = fst ` set m \<union> {x \<in> set xs. x < 0}"
proof (induction xs ds m rule: unify.induct)
  case (1 ds m)
  then show ?case by simp
next
  case (2 x xs ds m)
  show ?case
  proof (cases "x \<ge> 0")
    case True
    with 2 show ?thesis by auto
  next
    case False
    with "2.prems" obtain d ds' where ds: "ds = d # ds'"
      by (cases ds) auto
    show ?thesis
    proof (cases "map_of m x")
      case None
      with False ds 2 have "fst ` set m' = fst ` set (map_insert x d m) \<union> {x \<in> set xs. x < 0}"
        by auto
      with False show ?thesis by (auto simp: keys_map_insert)
    next
      case (Some e)
      then have "x \<in> fst ` set m" using map_of_eq_None_iff[of m x] by auto
      moreover from Some False ds 2 have "fst ` set m' = fst ` set m \<union> {x \<in> set xs. x < 0}"
        by (auto split: if_splits)
      ultimately show ?thesis using False by auto
    qed
  qed
qed


lemma unify_preserves:
  "unify xs ds m = Inr m' \<Longrightarrow> map_of m k = Some v \<Longrightarrow> map_of m' k = Some v"
proof (induction xs ds m rule: unify.induct)
  case (1 ds m)
  then show ?case by simp
next
  case (2 x xs ds m)
  show ?case
  proof (cases "x \<ge> 0")
    case True
    with 2 show ?thesis by auto
  next
    case False
    with "2.prems" obtain d ds' where ds: "ds = d # ds'"
      by (cases ds) auto
    show ?thesis
    proof (cases "map_of m x")
      case None
      with "2.prems" have "k \<noteq> x" by auto
      with None False ds 2 show ?thesis by (auto simp: map_of_map_insert)
    next
      case (Some e)
      with False ds 2 show ?thesis by (auto split: if_splits)
    qed
  qed
qed

lemma unify_records:
  "unify xs ds m = Inr m' \<Longrightarrow> i < length xs \<Longrightarrow> xs ! i < 0 \<Longrightarrow>
   i < length ds \<and> map_of m' (xs ! i) = Some (ds ! i)"
proof (induction xs ds m arbitrary: i rule: unify.induct)
  case (1 ds m)
  then show ?case by simp
next
  case (2 x xs ds m)
  show ?case
  proof (cases "x \<ge> 0")
    case True
    with "2.prems" obtain j where j: "i = Suc j" by (cases i) auto
    with True 2 have "j < length (tl ds) \<and> map_of m' (xs ! j) = Some (tl ds ! j)"
      by auto
    with j show ?thesis by (cases ds) auto
  next
    case False
    with "2.prems" obtain d ds' where ds: "ds = d # ds'"
      by (cases ds) auto
    show ?thesis
    proof (cases i)
      case 0
      show ?thesis
      proof (cases "map_of m x")
        case None
        with False ds "2.prems" have "unify xs ds' (map_insert x d m) = Inr m'" by simp
        then have "map_of m' x = Some d"
          by (rule unify_preserves) (simp add: map_of_map_insert)
        with 0 ds show ?thesis by simp
      next
        case (Some e)
        with False ds "2.prems" have "e = d" "unify xs ds' m = Inr m'"
          by (auto split: if_splits)
        with Some have "map_of m' x = Some d" by (auto intro: unify_preserves)
        with 0 ds show ?thesis by simp
      qed
    next
      case (Suc j)
      show ?thesis
      proof (cases "map_of m x")
        case None
        with False ds Suc 2 show ?thesis by auto
      next
        case (Some e)
        with False ds Suc 2 show ?thesis by (auto split: if_splits)
      qed
    qed
  qed
qed

lemma unify_Inl:
  "unify xs ds m = Inl e \<Longrightarrow>
   e = LabelConflict \<or> (e = UndefinedBehaviour \<and> length ds < length xs)"
proof (induction xs ds m rule: unify.induct)
  case (1 ds m)
  then show ?case by simp
next
  case (2 x xs ds m)
  show ?case
  proof (cases ds)
    case Nil
    with 2 show ?thesis by (auto split: if_splits)
  next
    case (Cons d ds')
    with 2 show ?thesis by (auto split: if_splits option.splits)
  qed
qed

lemma build_dim_map_InrE:
  assumes "build_dim_map dim_a dim_b dim_c a b c = Inr dm"
  obtains m1 m2 where "unify a dim_a [] = Inr m1" "unify b dim_b m1 = Inr m2"
    "unify c dim_c m2 = Inr dm"
  using assms by (auto simp: build_dim_map_def split: sum.splits)


lemma build_dim_map_keys:
  assumes "build_dim_map dim_a dim_b dim_c a b c = Inr dm"
  shows "fst ` set dm = {x \<in> set a \<union> set b \<union> set c. x < 0}"
proof -
  from assms obtain m1 m2 where u: "unify a dim_a [] = Inr m1" "unify b dim_b m1 = Inr m2"
    "unify c dim_c m2 = Inr dm"
    by (rule build_dim_map_InrE)
  from unify_keys[OF u(1)] unify_keys[OF u(2)] unify_keys[OF u(3)] show ?thesis
    by auto
qed


lemma build_dim_map_a:
  assumes "build_dim_map dim_a dim_b dim_c a b c = Inr dm" "i < length a" "a ! i < 0"
  shows "i < length dim_a \<and> map_of dm (a ! i) = Some (dim_a ! i)"
proof -
  from assms(1) obtain m1 m2 where u: "unify a dim_a [] = Inr m1" "unify b dim_b m1 = Inr m2"
    "unify c dim_c m2 = Inr dm"
    by (rule build_dim_map_InrE)
  from unify_records[OF u(1) assms(2,3)]
  have "i < length dim_a" "map_of m1 (a ! i) = Some (dim_a ! i)" by auto
  with unify_preserves[OF u(2)] unify_preserves[OF u(3)] show ?thesis by blast
qed

lemma build_dim_map_b:
  assumes "build_dim_map dim_a dim_b dim_c a b c = Inr dm" "i < length b" "b ! i < 0"
  shows "i < length dim_b \<and> map_of dm (b ! i) = Some (dim_b ! i)"
proof -
  from assms(1) obtain m1 m2 where u: "unify a dim_a [] = Inr m1" "unify b dim_b m1 = Inr m2"
    "unify c dim_c m2 = Inr dm"
    by (rule build_dim_map_InrE)
  from unify_records[OF u(2) assms(2,3)]
  have "i < length dim_b" "map_of m2 (b ! i) = Some (dim_b ! i)" by auto
  with unify_preserves[OF u(3)] show ?thesis by blast
qed

lemma build_dim_map_c:
  assumes "build_dim_map dim_a dim_b dim_c a b c = Inr dm" "i < length c" "c ! i < 0"
  shows "i < length dim_c \<and> map_of dm (c ! i) = Some (dim_c ! i)"
proof -
  from assms(1) obtain m1 m2 where u: "unify a dim_a [] = Inr m1" "unify b dim_b m1 = Inr m2"
    "unify c dim_c m2 = Inr dm"
    by (rule build_dim_map_InrE)
  from unify_records[OF u(3) assms(2,3)] show ?thesis .
qed

lemma build_dim_map_operand:
  assumes "build_dim_map dim_a dim_b dim_c a b c = Inr dm"
    and "(spec, dims) \<in> {(a, dim_a), (b, dim_b), (c, dim_c)}"
    and "i < length spec" and "spec ! i < 0"
  shows "i < length dims \<and> map_of dm (spec ! i) = Some (dims ! i)"
  using assms(2-) build_dim_map_a [OF assms(1)] build_dim_map_b [OF assms(1)]
    build_dim_map_c [OF assms(1)]
  by auto

lemma build_dim_map_Inl:
  assumes "build_dim_map dim_a dim_b dim_c a b c = Inl e"
    and "length a \<le> length dim_a" and "length b \<le> length dim_b" and "length c \<le> length dim_c"
  shows "e = LabelConflict"
  using assms unify_Inl [of a dim_a "[]" e]
  by (auto simp: build_dim_map_def split: sum.splits dest!: unify_Inl)

subsection \<open>The sort\<close>

lemma strict_weak_order_by_extent: "strict_weak_order by_extent"
  by (auto simp: strict_weak_order_def by_extent_def)

lemma std_sort_mset: "std_sort srt \<Longrightarrow> mset (srt by_extent m) = mset m"
  using strict_weak_order_by_extent by (simp add: std_sort_def)

lemma std_sort_sorted: "std_sort srt \<Longrightarrow> sorted (map snd (srt by_extent m))"
proof -
  assume "std_sort srt"
  with strict_weak_order_by_extent
  have "sorted_wrt (\<lambda>x y. \<not> by_extent y x) (srt by_extent m)"
    by (simp add: std_sort_def)
  then show ?thesis
    by (simp add: sorted_map by_extent_def not_less)
qed

lemma std_sort_set: "std_sort srt \<Longrightarrow> set (srt by_extent m) = set m"
  using mset_eq_setD std_sort_mset by blast

lemma std_sort_length: "std_sort srt \<Longrightarrow> length (srt by_extent m) = length m"
  using mset_eq_length std_sort_mset by blast

lemma std_sort_distinct:
  assumes "std_sort srt" "distinct (map fst m)"
  shows "distinct (map fst (srt by_extent m))"
proof -
  from assms(1) have "mset (map fst (srt by_extent m)) = mset (map fst m)"
    using std_sort_mset[of srt m] by (metis mset_map)
  with assms(2) show ?thesis using mset_eq_imp_distinct_iff by blast
qed

lemma std_sort_prod:
  assumes "std_sort srt"
  shows "prod_list (map snd (srt by_extent m)) = (prod_list (map snd m) :: int)"
proof -
  from assms have "mset (map snd (srt by_extent m)) = mset (map snd m)"
    using std_sort_mset[of srt m] by (metis mset_map)
  then show ?thesis by (metis prod_mset_prod_list)
qed

lemma set_insert_by: "set (insert_by lt x ys) = insert x (set ys)"
  by (induction ys) auto

lemma mset_insert_by: "mset (insert_by lt x ys) = add_mset x (mset ys)"
  by (induction ys) simp_all

lemma sorted_insert_by:
  assumes "strict_weak_order lt" and "sorted_wrt (\<lambda>x y. \<not> lt y x) ys"
  shows "sorted_wrt (\<lambda>x y. \<not> lt y x) (insert_by lt x ys)"
  using assms(2)
proof (induction ys)
  case Nil
  then show ?case by simp
next
  case (Cons y ys)
  from assms(1) have irr: "\<And>u. \<not> lt u u"
    and tr: "\<And>u v w. lt u v \<Longrightarrow> lt v w \<Longrightarrow> lt u w"
    unfolding strict_weak_order_def by blast+
  show ?case
  proof (cases "lt x y")
    case True
    have "\<not> lt z x" if "z \<in> set (y # ys)" for z
    proof
      assume "lt z x"
      from this True have "lt z y" by (rule tr)
      with that Cons.prems irr show False by auto
    qed
    with True Cons.prems show ?thesis by auto
  next
    case False
    with Cons show ?thesis by (auto simp: set_insert_by)
  qed
qed

lemma std_sort_insertion_sort: "std_sort insertion_sort"
proof -
  have "mset (insertion_sort lt xs) = mset xs" for lt :: "int \<times> int \<Rightarrow> int \<times> int \<Rightarrow> bool" and xs
    unfolding insertion_sort_def by (induction xs) (simp_all add: mset_insert_by)
  moreover have "sorted_wrt (\<lambda>x y. \<not> lt y x) (insertion_sort lt xs)"
    if "strict_weak_order lt" for lt :: "int \<times> int \<Rightarrow> int \<times> int \<Rightarrow> bool" and xs
    unfolding insertion_sort_def by (induction xs) (simp_all add: sorted_insert_by [OF that])
  ultimately show ?thesis by (simp add: std_sort_def)
qed

lemma std_sort_two:
  assumes "std_sort srt" and "e2 < e1"
  shows "srt by_extent [(k1, e1), (k2, e2)] = [(k2, e2), (k1, e1)]"
proof -
  let ?r = "srt by_extent [(k1, e1), (k2, e2)]"
  from assms(1) have m: "mset ?r = {#(k1, e1), (k2, e2)#}" and s: "sorted (map snd ?r)"
    by (simp_all add: std_sort_mset std_sort_sorted)
  from assms(1) have "length ?r = 2" by (simp add: std_sort_length)
  then obtain x y where r: "?r = [x, y]"
    by (auto simp: numeral_2_eq_2 length_Suc_conv)
  with m have "(x = (k1, e1) \<and> y = (k2, e2)) \<or> (x = (k2, e2) \<and> y = (k1, e1))"
    by (auto simp: add_eq_conv_diff)
  with s r assms(2) show ?thesis by auto
qed



subsection \<open>The lookup vector\<close>

lemma lookupvector_Some:
  "lookupvector ks k = Some i \<Longrightarrow> i < length ks \<and> ks ! i = k"
  by (induction ks arbitrary: i) (auto split: if_splits)

lemma lookupvector_nth:
  "distinct ks \<Longrightarrow> i < length ks \<Longrightarrow> lookupvector ks (ks ! i) = Some i"
proof (induction ks arbitrary: i)
  case Nil
  then show ?case by simp
next
  case (Cons x ks)
  then show ?case by (cases i) auto
qed

lemma lookupvector_mem:
  "k \<in> set ks \<Longrightarrow> \<exists>i < length ks. lookupvector ks k = Some i"
  by (induction ks) auto

lemma lookupvector_if: "(if ks \<noteq> [] then lookupvector ks else (\<lambda>k. None)) = lookupvector ks"
  by (cases ks) auto

subsection \<open>The stride pass\<close>

lemma stride_pass_length:
  "stride_pass lu xs ds cp st = Inr st' \<Longrightarrow> length st' = length st"
  by (induction lu xs ds cp st rule: stride_pass.induct)
    (auto split: if_splits option.splits list.splits)

lemma stride_pass_error:
  "stride_pass lu xs ds cp st = Inl e \<Longrightarrow> e = UndefinedBehaviour"
  by (induction lu xs ds cp st rule: stride_pass.induct)
    (auto split: if_splits option.splits list.splits)

lemma stride_pass_untouched:
  "stride_pass lu xs ds cp st = Inr st' \<Longrightarrow> 0 < j \<Longrightarrow>
   (\<forall>x \<in> set xs. x < 0 \<longrightarrow> lu (- x) \<noteq> Some (j - 1)) \<Longrightarrow> st' ! j = st ! j"
  by (induction lu xs ds cp st rule: stride_pass.induct)
    (auto split: if_splits option.splits list.splits)


lemma stride_pass_total:
  "length xs \<le> length ds \<Longrightarrow> st \<noteq> [] \<Longrightarrow>
   (\<forall>x \<in> set xs. x < 0 \<longrightarrow> (\<exists>pos. lu (- x) = Some pos \<and> 1 + pos < length st)) \<Longrightarrow>
   \<exists>st'. stride_pass lu xs ds cp st = Inr st'"
proof (induction lu xs ds cp st rule: stride_pass.induct)
  case (1 lu ds cumprod strides)
  then show ?case by simp
next
  case (2 lu x xs ds cumprod strides)
  from "2.prems"(1) obtain d ds' where ds: "ds = d # ds'" by (cases ds) auto
  show ?case
  proof (cases "x < 0")
    case True
    with "2.prems" obtain pos where pos: "lu (- x) = Some pos" "1 + pos < length strides"
      by auto
    with True ds "2.prems" "2.IH"(1)[of pos d ds'] show ?thesis by auto
  next
    case False
    with ds "2.prems" "2.IH"(2)[of d ds'] show ?thesis by auto
  qed
qed



lemma stride_slot_unused:
  assumes "stride_pass (lookupvector keys) xs ds cp (replicate len 0) = Inr st'"
    and "0 < j" and "j < len"
    and "j - 1 < length keys \<longrightarrow> - (keys ! (j - 1)) \<notin> set xs"
  shows "st' ! j = 0"
proof -
  have "\<forall>x \<in> set xs. x < 0 \<longrightarrow> lookupvector keys (- x) \<noteq> Some (j - 1)"
  proof (intro ballI impI notI)
    fix x assume "x \<in> set xs" "lookupvector keys (- x) = Some (j - 1)"
    with lookupvector_Some [of keys "- x" "j - 1"] assms(4) show False by auto
  qed
  from stride_pass_untouched [OF assms(1,2) this] assms(3) show ?thesis by simp
qed








lemma address_broadcast:
  assumes "i + 1 < length strides" and "strides ! (i + 1) = 0"
  shows "address strides (idx[i := v]) = address strides idx"
proof -
  from assms have z: "tl strides ! i = 0" by (simp add: nth_tl)
  have "map2 (*) (tl strides) (idx[i := v]) = map2 (*) (tl strides) idx"
  proof (rule nth_equalityI)
    show "length (map2 (*) (tl strides) (idx[i := v])) = length (map2 (*) (tl strides) idx)"
      by simp
  next
    fix k assume "k < length (map2 (*) (tl strides) (idx[i := v]))"
    then show "map2 (*) (tl strides) (idx[i := v]) ! k = map2 (*) (tl strides) idx ! k"
      using z by (cases "k = i") simp_all
  qed
  then show ?thesis by (simp add: address_def)
qed

subsection \<open>The builder as a whole\<close>

lemma einstein_process_InrE:
  assumes "einstein_process srt A B C dim_a dim_b dim_c a b c p = (Inr n, p')"
  obtains dm where
    "is_vector A \<and> is_dense A" "is_vector B \<and> is_dense B" "is_vector C \<and> is_dense C"
    "numel A = prod_list dim_a" "numel B = prod_list dim_b" "numel C = prod_list dim_c"
    "length dim_a = length a" "length dim_b = length b" "length c \<le> length a + length b"
    "build_dim_map dim_a dim_b dim_c a b c = Inr dm"
    "n = wrap_int (prod_list (map snd (srt by_extent dm)))"
    "iter_dims p' = iter_dims p @ map snd (srt by_extent dm)"
    "stride_pass (lookupvector (dim_map_keys srt dm)) a dim_a 1
       (replicate (length (iter_dims p) + length (srt by_extent dm) + 1) 0) = Inr (strides_a p')"
    "stride_pass (lookupvector (dim_map_keys srt dm)) b dim_b 1
       (replicate (length (iter_dims p) + length (srt by_extent dm) + 1) 0) = Inr (strides_b p')"
    "stride_pass (lookupvector (dim_map_keys srt dm)) c dim_c 1
       (replicate (length (iter_dims p) + length (srt by_extent dm) + 1) 0) = Inr (strides_c p')"
  using assms
  unfolding einstein_process_def collect_eq lookupvector_if product_vec_prod_list dim_map_keys_def
  by (auto simp: Let_def split: if_splits sum.splits)

lemma einstein_process_Inl_cases:
  assumes "einstein_process srt A B C dim_a dim_b dim_c a b c p = (Inl e, p')"
  shows "p' = p \<or> e = UndefinedBehaviour"
  using assms unfolding einstein_process_def collect_eq lookupvector_if
  by (auto simp: Let_def split: if_splits sum.splits dest: stride_pass_error)

lemma einstein_process_strides:
  assumes "einstein_process srt A B C dim_a dim_b dim_c a b c p = (Inr n, p')"
    and "build_dim_map dim_a dim_b dim_c a b c = Inr dm"
    and "(spec, dims, strides) \<in>
          {(a, dim_a, strides_a p'), (b, dim_b, strides_b p'), (c, dim_c, strides_c p')}"
  shows "stride_pass (lookupvector (dim_map_keys srt dm)) spec dims 1
           (replicate (length (iter_dims p) + length (srt by_extent dm) + 1) 0) = Inr strides"
  using einstein_process_InrE [OF assms(1)] assms(2,3)
  by (elim disjE insertE emptyE) (metis Pair_inject sum.inject(2))+

lemma einstein_process_returns:
  assumes "std_sort srt"
    and "is_vector A \<and> is_dense A" "is_vector B \<and> is_dense B" "is_vector C \<and> is_dense C"
    and "numel A = product_vec dim_a" "numel B = product_vec dim_b" "numel C = product_vec dim_c"
    and "length dim_a = length a" "length dim_b = length b" "length c \<le> length a + length b"
    and "length c \<le> length dim_c"
    and "build_dim_map dim_a dim_b dim_c a b c = Inr dm"
  shows "\<exists>p'. einstein_process srt A B C dim_a dim_b dim_c a b c p =
           (Inr (wrap_int (prod_list (map snd (srt by_extent dm)))), p')"
proof -
  let ?keys = "map (\<lambda>e. - fst e) (srt by_extent dm)"
  let ?zeros = "replicate (length (iter_dims p @ map snd (srt by_extent dm)) + 1) (0 :: int)"
  have pass: "\<exists>st. stride_pass (lookupvector ?keys) spec dims 1 ?zeros = Inr st"
    if "set spec \<subseteq> set a \<union> set b \<union> set c" "length spec \<le> length dims" for spec dims
  proof (rule stride_pass_total [OF that(2)])
    show "?zeros \<noteq> []" by simp
    show "\<forall>x \<in> set spec. x < 0 \<longrightarrow>
        (\<exists>pos. lookupvector ?keys (- x) = Some pos \<and> 1 + pos < length ?zeros)"
    proof (intro ballI impI)
      fix x assume "x \<in> set spec" "x < 0"
      with that(1) build_dim_map_keys [OF assms(12)] have "x \<in> fst ` set dm" by auto
      with assms(1) have "x \<in> fst ` set (srt by_extent dm)" by (simp add: std_sort_set)
      then have "- x \<in> set ?keys" by force
      from lookupvector_mem [OF this] show
        "\<exists>pos. lookupvector ?keys (- x) = Some pos \<and> 1 + pos < length ?zeros"
        by auto
    qed
  qed
  from pass [of a dim_a] assms(8) obtain sa where
    sa: "stride_pass (lookupvector ?keys) a dim_a 1 ?zeros = Inr sa" by auto
  from pass [of b dim_b] assms(9) obtain sb where
    sb: "stride_pass (lookupvector ?keys) b dim_b 1 ?zeros = Inr sb" by auto
  from pass [of c dim_c] assms(11) obtain sc where
    sc: "stride_pass (lookupvector ?keys) c dim_c 1 ?zeros = Inr sc" by auto
  from assms(2-10,12) sa sb sc show ?thesis
    unfolding einstein_process_def collect_eq lookupvector_if
    by (simp add: Let_def)
qed

lemma repeated_label_conflict:
  assumes "is_vector A \<and> is_dense A" "is_vector B \<and> is_dense B" "is_vector C \<and> is_dense C"
    and "numel A = product_vec dim_a" "numel B = product_vec dim_b" "numel C = product_vec dim_c"
    and "length dim_a = length a" "length dim_b = length b" "length c \<le> length a + length b"
    and "length c \<le> length dim_c"
    and "(spec, dims) \<in> {(a, dim_a), (b, dim_b), (c, dim_c)}"
    and "i < length spec" "j < length spec" "spec ! i = spec ! j" "spec ! i < 0"
    and "dims ! i \<noteq> dims ! j"
  shows "einstein_process srt A B C dim_a dim_b dim_c a b c p = (Inl LabelConflict, p)"
proof -
  have "build_dim_map dim_a dim_b dim_c a b c = Inl LabelConflict"
  proof (cases "build_dim_map dim_a dim_b dim_c a b c")
    case (Inl e)
    with assms(7,8,10) show ?thesis by (auto dest: build_dim_map_Inl)
  next
    case (Inr dm)
    from assms(12-15) build_dim_map_operand [OF Inr assms(11), of i]
      build_dim_map_operand [OF Inr assms(11), of j]
    have "map_of dm (spec ! i) = Some (dims ! i)" "map_of dm (spec ! i) = Some (dims ! j)"
      by auto
    with assms(16) show ?thesis by simp
  qed
  with assms(1-9) show ?thesis by (simp add: einstein_process_def)
qed

lemma prod_list_zero_member: "(0 :: int) \<in> set xs \<Longrightarrow> prod_list xs = 0"
  by (induction xs) auto

subsection \<open>The loops of the executor\<close>

lemma visit_all_append:
  "visit_all leaf (xs @ ys) s =
     (case visit_all leaf xs s of None \<Rightarrow> None | Some s' \<Rightarrow> visit_all leaf ys s')"
  by (induction xs arbitrary: s) (auto split: option.splits)

lemma visit_all_single: "visit_all leaf [p] s = leaf p s"
  by (simp split: option.splits)

lemma visit_all_record: "visit_all (\<lambda>p tr. Some (tr @ [p])) ps tr = Some (tr @ ps)"
  by (induction ps arbitrary: tr) auto

lemma offset_by_0: "offset_by p st 0 = p"
  by (cases p; cases st) simp

lemma offset_by_advance: "offset_by (advance p st) st (int i) = offset_by p st (int (Suc i))"
  by (cases p; cases st) (simp add: algebra_simps)

lemma strided_loop_visit_all:
  "strided_loop (\<lambda>p. visit_all leaf (T p)) k p st s =
     visit_all leaf (concat (map (\<lambda>i. T (offset_by p st (int i))) [0..<k])) s"
proof (induction k arbitrary: p s)
  case 0
  then show ?case by simp
next
  case (Suc k)
  have "[0..<Suc k] = 0 # map Suc [0..<k]"
    by (simp add: upt_conv_Cons map_Suc_upt del: upt_Suc)
  then have "concat (map (\<lambda>i. T (offset_by p st (int i))) [0..<Suc k]) =
      T p @ concat (map (\<lambda>i. T (offset_by (advance p st) st (int i))) [0..<k])"
    by (simp add: offset_by_0 offset_by_advance comp_def del: upt_Suc)
  then show ?case
    by (simp only: strided_loop.simps Suc.IH visit_all_append cong: option.case_cong)
qed

lemma strided_loop_visits:
  assumes "\<And>p s. body p s = visit_all leaf (T p) s"
  shows "strided_loop body k p st s =
           visit_all leaf (concat (map (\<lambda>i. T (offset_by p st (int i))) [0..<k])) s"
proof -
  from assms have "body = (\<lambda>p. visit_all leaf (T p))" by (intro ext)
  then show ?thesis by (simp only: strided_loop_visit_all)
qed

lemma inner_loops_visits:
  "strided_loop
     (\<lambda>p1. strided_loop (\<lambda>p2. strided_loop leaf n3 p2 st3) n2 p1 st2) n1 p st1 s
   = visit_all leaf (block_visits n1 n2 n3 st1 st2 st3 p) s"
proof -
  have l3: "strided_loop leaf n3 p2 st3 s =
      visit_all leaf (map (\<lambda>i3. offset_by p2 st3 (int i3)) [0..<n3]) s" for p2 s
    using strided_loop_visits [of leaf leaf "\<lambda>p. [p]" n3 p2 st3 s]
    by (simp add: visit_all_single concat_map_singleton del: visit_all.simps)
  have l2: "strided_loop (\<lambda>p2. strided_loop leaf n3 p2 st3) n2 p1 st2 s =
      visit_all leaf (concat (map (\<lambda>i2. map (\<lambda>i3.
         offset_by (offset_by p1 st2 (int i2)) st3 (int i3)) [0..<n3]) [0..<n2])) s" for p1 s
    by (rule strided_loop_visits) (rule l3)
  show ?thesis
    unfolding block_visits_def by (rule strided_loop_visits) (rule l2)
qed

lemma for_loop_visits:
  assumes "\<And>i s. body i s = (case D i of None \<Rightarrow> None | Some p \<Rightarrow> visit_all leaf (T p) s)"
  shows "for_loop is body s =
           (case those (map D is) of
              None \<Rightarrow> None
            | Some ps \<Rightarrow> visit_all leaf (concat (map T ps)) s)"
proof (induction "is" arbitrary: s)
  case Nil
  then show ?case by simp
next
  case (Cons i "is")
  show ?case
  proof (cases "D i")
    case None
    then show ?thesis by (simp add: assms)
  next
    case (Some p)
    show ?thesis
    proof (cases "those (map D is)")
      case None
      with Some Cons.IH show ?thesis
        by (simp add: assms split: option.splits)
    next
      case (Some ps)
      with \<open>D i = Some p\<close> Cons.IH show ?thesis
        by (simp add: assms visit_all_append split: option.splits)
    qed
  qed
qed

lemma outer_loop_visits:
  "for_loop is
     (\<lambda>i s1. do {
        p \<leftarrow> D i;
        strided_loop
          (\<lambda>p1. strided_loop (\<lambda>p2. strided_loop leaf n3 p2 st3) n2 p1 st2) n1 p st1 s1
      }) s
   = do {
       ps \<leftarrow> those (map D is);
       visit_all leaf (concat (map (block_visits n1 n2 n3 st1 st2 st3) ps)) s
     }"
proof -
  have "for_loop is
     (\<lambda>i s1. do {
        p \<leftarrow> D i;
        strided_loop
          (\<lambda>p1. strided_loop (\<lambda>p2. strided_loop leaf n3 p2 st3) n2 p1 st2) n1 p st1 s1
      }) s
   = (case those (map D is) of
        None \<Rightarrow> None
      | Some ps \<Rightarrow> visit_all leaf (concat (map (block_visits n1 n2 n3 st1 st2 st3) ps)) s)"
    by (rule for_loop_visits) (simp add: inner_loops_visits split: option.splits)
  then show ?thesis by (simp split: option.splits)
qed

lemma einstein_eval_with_plan_visits:
  "einstein_eval_with leaf n_iter dims sa sb sc s =
     (case plan_visits n_iter dims sa sb sc of
        None \<Rightarrow> None
      | Some tr \<Rightarrow> visit_all leaf tr s)"
  unfolding einstein_eval_with_def plan_visits_def outer_loop_visits
  by (simp add: Let_def split: Option.bind_splits)

lemma einstein_eval_trace_plan_visits:
  "einstein_eval_trace n_iter dims sa sb sc = plan_visits n_iter dims sa sb sc"
  unfolding einstein_eval_trace_def einstein_eval_with_plan_visits
  by (simp add: visit_all_record split: option.splits)

lemma einstein_eval_with_trace:
  "einstein_eval_with leaf n_iter dims sa sb sc s =
     (case einstein_eval_trace n_iter dims sa sb sc of
        None \<Rightarrow> None
      | Some tr \<Rightarrow> visit_all leaf tr s)"
  by (simp only: einstein_eval_trace_plan_visits einstein_eval_with_plan_visits)

lemma einstein_eval_with_zero: "einstein_eval_with leaf 0 dims sa sb sc s = Some s"
  by (simp add: einstein_eval_with_def)

subsection \<open>Counters and their digits\<close>

lemma c_div_nonneg: "0 \<le> x \<Longrightarrow> 0 < y \<Longrightarrow> c_div x y = Some (x div y)"
  by (cases "x = 0") (simp_all add: c_div_def)

lemma c_mod_nonneg: "0 \<le> x \<Longrightarrow> 0 < y \<Longrightarrow> c_mod x y = Some (x mod y)"
  by (cases "x = 0") (simp_all add: c_mod_def)

lemma prod_list_pos: "\<forall>d \<in> set ds. (0 :: int) < d \<Longrightarrow> 0 < prod_list ds"
  by (induction ds) simp_all

lemma length_digits: "length (digits ds s) = length ds"
  by (induction ds arbitrary: s) simp_all

lemma digits_in_range:
  "\<forall>d \<in> set ds. 0 < d \<Longrightarrow> list_all2 (\<lambda>x d. 0 \<le> x \<and> x < d) (digits ds s) ds"
  by (induction ds arbitrary: s) simp_all

lemma undigits_digits:
  "\<forall>d \<in> set ds. 0 < d \<Longrightarrow> 0 \<le> s \<Longrightarrow> s < prod_list ds \<Longrightarrow> undigits ds (digits ds s) = s"
proof (induction ds arbitrary: s)
  case Nil
  then show ?case by simp
next
  case (Cons d ds)
  from Cons.prems have d: "0 < d" and lt: "s < d * prod_list ds" by simp_all
  from d Cons.prems(2) have "0 \<le> s div d" by (simp add: pos_imp_zdiv_nonneg_iff)
  moreover have "s div d < prod_list ds"
  proof (rule ccontr)
    assume "\<not> s div d < prod_list ds"
    with d have "d * prod_list ds \<le> d * (s div d)" by (intro mult_left_mono) simp_all
    also have "\<dots> = s - s mod d" by (simp add: minus_mod_eq_mult_div [symmetric])
    also from d have "\<dots> \<le> s" by simp
    finally show False using lt by simp
  qed
  ultimately have "undigits ds (digits ds (s div d)) = s div d"
    using Cons.prems(1) by (intro Cons.IH) simp_all
  then show ?case by simp
qed

lemma digits_undigits:
  "list_all2 (\<lambda>x d. 0 \<le> x \<and> x < d) xs ds \<Longrightarrow>
   digits ds (undigits ds xs) = xs \<and> 0 \<le> undigits ds xs \<and> undigits ds xs < prod_list ds"
proof (induction rule: list_all2_induct)
  case Nil
  then show ?case by simp
next
  case (Cons x xs d ds)
  let ?u = "undigits ds xs"
  from Cons have x: "0 \<le> x" "x < d" and u: "0 \<le> ?u" "?u < prod_list ds"
    and dg: "digits ds ?u = xs"
    by simp_all
  from x have m: "(x + d * ?u) mod d = x" "(x + d * ?u) div d = ?u" by simp_all
  from x u have nn: "0 \<le> x + d * ?u" by simp
  from u have "?u + 1 \<le> prod_list ds" by simp
  with x have "d * (?u + 1) \<le> d * prod_list ds" by (intro mult_left_mono) simp_all
  with x have "x + d * ?u < d * prod_list ds" by (simp add: algebra_simps)
  with m nn dg show ?case by simp
qed

subsection \<open>Index tuples\<close>

lemma mem_int_range: "x \<in> set (map int [0..<nat d]) \<longleftrightarrow> 0 \<le> x \<and> x < d"
proof
  assume "x \<in> set (map int [0..<nat d])"
  then show "0 \<le> x \<and> x < d" by auto
next
  assume "0 \<le> x \<and> x < d"
  then have "nat x < nat d" "int (nat x) = x" by simp_all
  then show "x \<in> set (map int [0..<nat d])" by (metis atLeast0LessThan image_eqI lessThan_iff
        set_map set_upt)
qed

lemma set_index_tuples:
  "set (index_tuples ds) = {xs. list_all2 (\<lambda>x d. 0 \<le> x \<and> x < d) xs ds}"
  by (simp add: index_tuples_def product_lists_set list_all2_map2 mem_int_range
      del: set_map set_upt)

lemma distinct_index_tuples: "distinct (index_tuples ds)"
  unfolding index_tuples_def
  by (rule distinct_product_lists) (auto simp: distinct_map)

lemma digits_perm:
  assumes "\<forall>d \<in> set ds. 0 < d"
  shows "mset (map (\<lambda>i. digits ds (int i)) [0..<nat (prod_list ds)]) = mset (index_tuples ds)"
proof -
  let ?L = "map (\<lambda>i. digits ds (int i)) [0..<nat (prod_list ds)]"
  have inj: "inj_on (\<lambda>i. digits ds (int i)) {0..<nat (prod_list ds)}"
  proof (rule inj_on_inverseI [where g = "\<lambda>xs. nat (undigits ds xs)"])
    fix i assume "i \<in> {0..<nat (prod_list ds)}"
    then have "int i < prod_list ds" by auto
    with assms have "undigits ds (digits ds (int i)) = int i"
      by (intro undigits_digits) simp_all
    then show "nat (undigits ds (digits ds (int i))) = i" by simp
  qed
  then have dist: "distinct ?L" by (simp add: distinct_map)
  have "set ?L = set (index_tuples ds)"
  proof (intro equalityI subsetI)
    fix xs assume "xs \<in> set ?L"
    with assms show "xs \<in> set (index_tuples ds)"
      by (auto simp: set_index_tuples digits_in_range)
  next
    fix xs assume "xs \<in> set (index_tuples ds)"
    then have "list_all2 (\<lambda>x d. 0 \<le> x \<and> x < d) xs ds" by (simp add: set_index_tuples)
    from digits_undigits [OF this]
    have xs: "digits ds (undigits ds xs) = xs" and r: "0 \<le> undigits ds xs"
      "undigits ds xs < prod_list ds"
      by simp_all
    from r have "nat (undigits ds xs) \<in> set [0..<nat (prod_list ds)]" by simp
    moreover from xs r have "digits ds (int (nat (undigits ds xs))) = xs" by simp
    ultimately show "xs \<in> set ?L" by (metis (no_types, lifting) image_eqI set_map)
  qed
  with dist distinct_index_tuples show ?thesis
    by (simp only: set_eq_iff_mset_eq_distinct)
qed

lemma product_lists_empty_member: "[] \<in> set xss \<Longrightarrow> product_lists xss = []"
  by (induction xss) auto

lemma index_tuples_zero: "0 \<in> set ds \<Longrightarrow> index_tuples ds = []"
  unfolding index_tuples_def by (rule product_lists_empty_member) force

lemma product_lists_append:
  "product_lists (xss @ yss) =
     concat (map (\<lambda>xs. map (\<lambda>ys. xs @ ys) (product_lists yss)) (product_lists xss))"
proof (induction xss)
  case Nil
  have "(@) [] = (\<lambda>ys :: 'a list. ys)" by (simp add: fun_eq_iff)
  then show ?case by simp
next
  case (Cons xs xss)
  let ?PX = "product_lists xss" and ?PY = "product_lists yss"
  have E: "(@) (u # us) = (\<lambda>ys. u # us @ ys)" for u :: 'a and us
    by (simp add: fun_eq_iff)
  have L: "map (Cons x) (concat (map (\<lambda>zs. map (\<lambda>ys. zs @ ys) ?PY) ?PX)) =
      concat (map (\<lambda>zs. map (\<lambda>ys. (x # zs) @ ys) ?PY) ?PX)" for x
    by (simp add: map_concat comp_def)
  have R: "concat (map (\<lambda>zs. map (\<lambda>ys. zs @ ys) ?PY) (concat (map (\<lambda>x. map (Cons x) ?PX) us))) =
      concat (map (\<lambda>x. concat (map (\<lambda>zs. map (\<lambda>ys. (x # zs) @ ys) ?PY) ?PX)) us)" for us
    by (induction us) (simp_all add: comp_def E)
  show ?case
    by (simp only: append_Cons product_lists.simps Cons.IH L R)
qed

lemma index_tuples_append:
  "index_tuples (ds @ es) =
     concat (map (\<lambda>xs. map (\<lambda>ys. xs @ ys) (index_tuples es)) (index_tuples ds))"
  by (simp add: index_tuples_def product_lists_append)

lemma mset_concat_map_cong:
  assumes "mset xs = mset ys"
  shows "mset (concat (map g xs)) = mset (concat (map g ys))"
proof -
  have "mset (concat (map g zs)) = sum_mset (image_mset (\<lambda>z. mset (g z)) (mset zs))" for zs
    by (induction zs) simp_all
  with assms show ?thesis by simp
qed

lemma index_tuples_3:
  "index_tuples [d1, d2, d3] =
     concat (map (\<lambda>i1. concat (map (\<lambda>i2. map (\<lambda>i3. [int i1, int i2, int i3])
       [0..<nat d3]) [0..<nat d2])) [0..<nat d1])"
  by (simp add: index_tuples_def map_concat comp_def concat_map_singleton)

subsection \<open>The visits of a plan with positive extents\<close>

lemma construct_indices_digits:
  assumes "k + j \<le> length dims"
    and "k + j + 1 \<le> length sa" and "k + j + 1 \<le> length sb" and "k + j + 1 \<le> length sc"
    and "\<forall>d \<in> set dims. 0 < d" and "0 \<le> sub"
  shows "construct_indices k j dims sa sb sc sub (a, b, c) =
           Some (a + sum_list (map2 (*) (take k (drop (j + 1) sa)) (digits (take k (drop j dims)) sub)),
                 b + sum_list (map2 (*) (take k (drop (j + 1) sb)) (digits (take k (drop j dims)) sub)),
                 c + sum_list (map2 (*) (take k (drop (j + 1) sc)) (digits (take k (drop j dims)) sub)))"
  using assms
proof (induction k arbitrary: j sub a b c)
  case 0
  then show ?case by simp
next
  case (Suc k)
  let ?d = "dims ! j"
  from Suc.prems have j: "j < length dims" "j + 1 < length sa" "j + 1 < length sb"
    "j + 1 < length sc"
    by simp_all
  with Suc.prems have d: "0 < ?d" by simp
  from d Suc.prems(6) have sub': "0 \<le> sub div ?d" by (simp add: pos_imp_zdiv_nonneg_iff)
  have dd: "drop j dims = ?d # drop (Suc j) dims"
    using j by (simp add: Cons_nth_drop_Suc)
  have da: "drop (j + 1) sa = sa ! (j + 1) # drop (Suc j + 1) sa"
    "drop (j + 1) sb = sb ! (j + 1) # drop (Suc j + 1) sb"
    "drop (j + 1) sc = sc ! (j + 1) # drop (Suc j + 1) sc"
    using j by (simp_all add: Cons_nth_drop_Suc)
  have rec: "construct_indices k (Suc j) dims sa sb sc (sub div ?d) (a', b', c') =
           Some (a' + sum_list (map2 (*) (take k (drop (Suc j + 1) sa))
                     (digits (take k (drop (Suc j) dims)) (sub div ?d))),
                 b' + sum_list (map2 (*) (take k (drop (Suc j + 1) sb))
                     (digits (take k (drop (Suc j) dims)) (sub div ?d))),
                 c' + sum_list (map2 (*) (take k (drop (Suc j + 1) sc))
                     (digits (take k (drop (Suc j) dims)) (sub div ?d))))" for a' b' c'
    using Suc.prems sub' by (intro Suc.IH) simp_all
  have reads: "vec_at dims (int j) = Some ?d" "vec_at sa (int j + 1) = Some (sa ! (j + 1))"
    "vec_at sb (int j + 1) = Some (sb ! (j + 1))" "vec_at sc (int j + 1) = Some (sc ! (j + 1))"
    using j by (simp_all add: vec_at_def nat_add_distrib)
  show ?case
    unfolding dd da
    by (simp add: reads c_mod_nonneg [OF Suc.prems(6) d] c_div_nonneg [OF Suc.prems(6) d] rec
        add.assoc)
qed

lemma address_split:
  assumes "length oa = length dg"
  shows "address (a0 # oa @ rest) (dg @ t) =
           a0 + sum_list (map2 (*) oa dg) + sum_list (map2 (*) rest t)"
  using assms by (simp add: address_def)

lemma those_map_Some: "those (map (\<lambda>i. Some (f i)) is) = Some (map f is)"
  by (induction "is") simp_all

lemma block_visits_address:
  assumes "length oa = length dg" and "length ob = length dg" and "length oc = length dg"
  shows "block_visits (nat d1) (nat d2) (nat d3) (a1, b1, c1) (a2, b2, c2) (a3, b3, c3)
           (a0 + sum_list (map2 (*) oa dg), b0 + sum_list (map2 (*) ob dg),
            c0 + sum_list (map2 (*) oc dg))
         = map (\<lambda>t. (address (a0 # oa @ [a1, a2, a3]) (dg @ t),
                      address (b0 # ob @ [b1, b2, b3]) (dg @ t),
                      address (c0 # oc @ [c1, c2, c3]) (dg @ t)))
             (index_tuples [d1, d2, d3])"
  by (simp add: block_visits_def index_tuples_3 map_concat comp_def address_split [OF assms(1)]
      address_split [OF assms(2)] address_split [OF assms(3)] algebra_simps)

lemma plan_visits_deep:
  assumes len: "length oa = length outer" "length ob = length outer" "length oc = length outer"
    and pos: "\<forall>d \<in> set (outer @ [d1, d2, d3]). 0 < d"
  shows "plan_visits (prod_list (outer @ [d1, d2, d3])) (outer @ [d1, d2, d3])
           (a0 # oa @ [a1, a2, a3]) (b0 # ob @ [b1, b2, b3]) (c0 # oc @ [c1, c2, c3])
         = Some (concat (map (\<lambda>i.
             block_visits (nat d1) (nat d2) (nat d3) (a1, b1, c1) (a2, b2, c2) (a3, b3, c3)
               (a0 + sum_list (map2 (*) oa (digits outer (int i))),
                b0 + sum_list (map2 (*) ob (digits outer (int i))),
                c0 + sum_list (map2 (*) oc (digits outer (int i)))))
             [0..<nat (prod_list outer)]))"
proof -
  define dims where "dims = outer @ [d1, d2, d3]"
  define sa where "sa = a0 # oa @ [a1, a2, a3]"
  define sb where "sb = b0 # ob @ [b1, b2, b3]"
  define sc where "sc = c0 # oc @ [c1, c2, c3]"
  define n where "n = int (length dims)"
  have n: "n = int (length outer) + 3" by (simp add: n_def dims_def)
  from pos have dpos: "0 < d1" "0 < d2" "0 < d3" and opos: "\<forall>d \<in> set outer. 0 < d"
    by simp_all
  from pos have allpos: "\<forall>d \<in> set dims. 0 < d" by (simp add: dims_def)
  have P: "0 < prod_list outer" using opos by (rule prod_list_pos)
  have nz: "prod_list dims \<noteq> 0" using prod_list_pos [OF allpos] by simp
  have cond: "n > 0" "n > 1" "n > 2" using n by simp_all
  have l3: "level dims sa sb sc (n - 1) = Some (d3, (a3, b3, c3))"
    using len by (simp add: level_def vec_at_def n dims_def sa_def sb_def sc_def nth_append
        nat_add_distrib)
  have l2: "level dims sa sb sc (n - 2) = Some (d2, (a2, b2, c2))"
    using len by (simp add: level_def vec_at_def n dims_def sa_def sb_def sc_def nth_append
        nat_add_distrib)
  have l1: "level dims sa sb sc (n - 3) = Some (d1, (a1, b1, c1))"
    using len by (simp add: level_def vec_at_def n dims_def sa_def sb_def sc_def nth_append
        nat_add_distrib)
  have base: "vec_at sa 0 = Some a0" "vec_at sb 0 = Some b0" "vec_at sc 0 = Some c0"
    by (simp_all add: vec_at_def sa_def sb_def sc_def)
  define q where "q = d1 * d2 * d3"
  have q: "0 < q" using dpos by (simp add: q_def)
  have "prod_list dims = prod_list outer * q" by (simp add: dims_def q_def)
  moreover from q have "prod_list outer * q div q = prod_list outer" by simp
  moreover have "0 \<le> prod_list dims" using prod_list_pos [OF allpos] by simp
  ultimately have "c_div (prod_list dims) q = Some (prod_list outer)"
    using q by (simp add: c_div_nonneg)
  then have outer: "c_div (prod_list dims) (d1 * d2 * d3) = Some (prod_list outer)"
    by (simp only: q_def)
  have k: "nat (n - 3) = length outer" using n by simp
  have tk: "take (length outer) (drop (0 + 1) sa) = oa" "take (length outer) (drop (0 + 1) sb) = ob"
    "take (length outer) (drop (0 + 1) sc) = oc" "take (length outer) (drop 0 dims) = outer"
    using len by (simp_all add: sa_def sb_def sc_def dims_def)
  have ci: "construct_indices (nat (n - 3)) 0 dims sa sb sc (int i) (a0, b0, c0) =
      Some (a0 + sum_list (map2 (*) oa (digits outer (int i))),
            b0 + sum_list (map2 (*) ob (digits outer (int i))),
            c0 + sum_list (map2 (*) oc (digits outer (int i))))" for i
    unfolding k
    using construct_indices_digits [of "length outer" 0 dims sa sb sc "int i" a0 b0 c0] allpos len
    unfolding tk by (simp add: sa_def sb_def sc_def dims_def)
  show ?thesis
    unfolding dims_def [symmetric] sa_def [symmetric] sb_def [symmetric] sc_def [symmetric]
    unfolding plan_visits_def n_def [symmetric] Let_def
    by (simp add: nz cond l1 l2 l3 base outer ci those_map_Some comp_def)
qed

lemma plan_visits_0:
  "plan_visits 1 [] [a0] [b0] [c0] = Some [(a0, b0, c0)]"
  by (simp add: plan_visits_def vec_at_def c_div_def block_visits_def)

lemma plan_visits_1:
  assumes "0 < d3"
  shows "plan_visits d3 [d3] [a0, a3] [b0, b3] [c0, c3] =
           Some (map (\<lambda>t. (address [a0, a3] t, address [b0, b3] t, address [c0, c3] t))
                  (index_tuples [d3]))"
  using assms
  by (simp add: plan_visits_def level_def vec_at_def c_div_nonneg block_visits_def
      index_tuples_def address_def comp_def)

lemma plan_visits_2:
  assumes "0 < d2" and "0 < d3"
  shows "plan_visits (d2 * d3) [d2, d3] [a0, a2, a3] [b0, b2, b3] [c0, c2, c3] =
           Some (map (\<lambda>t. (address [a0, a2, a3] t, address [b0, b2, b3] t,
                            address [c0, c2, c3] t))
                  (index_tuples [d2, d3]))"
  using assms
  by (simp add: plan_visits_def level_def vec_at_def c_div_nonneg block_visits_def
      index_tuples_def address_def comp_def map_concat add.assoc)

lemma last_three_cases:
  obtains "xs = []" | x where "xs = [x]" | x y where "xs = [x, y]"
  | ys x y z where "xs = ys @ [x, y, z]"
proof (cases xs rule: rev_cases)
  case Nil
  then show ?thesis using that(1) by simp
next
  case (snoc ys z)
  show ?thesis
  proof (cases ys rule: rev_cases)
    case Nil
    with snoc show ?thesis using that(2) by simp
  next
    case (snoc ys' y)
    note s2 = this
    show ?thesis
    proof (cases ys' rule: rev_cases)
      case Nil
      with s2 \<open>xs = ys @ [z]\<close> show ?thesis using that(3) by simp
    next
      case (snoc ys'' x)
      with s2 \<open>xs = ys @ [z]\<close> show ?thesis using that(4) by simp
    qed
  qed
qed

lemma table_split:
  assumes "length st = length outer + 4"
  obtains s0 os s1 s2 s3 where "st = s0 # os @ [s1, s2, s3]" "length os = length outer"
proof -
  from assms obtain s0 rest where st: "st = s0 # rest" by (cases st) auto
  with assms have r: "length rest = length outer + 3" by simp
  then obtain os s1 s2 s3 where "rest = os @ [s1, s2, s3]"
    by (cases rest rule: last_three_cases) auto
  with st r show ?thesis using that by simp
qed

lemma plan_visits_deep_mset:
  assumes len: "length oa = length outer" "length ob = length outer" "length oc = length outer"
    and pos: "\<forall>d \<in> set (outer @ [d1, d2, d3]). 0 < d"
  shows "\<exists>tr. plan_visits (prod_list (outer @ [d1, d2, d3])) (outer @ [d1, d2, d3])
               (a0 # oa @ [a1, a2, a3]) (b0 # ob @ [b1, b2, b3]) (c0 # oc @ [c1, c2, c3])
             = Some tr \<and>
           mset tr = mset (naive_loop_nest (outer @ [d1, d2, d3])
               (a0 # oa @ [a1, a2, a3]) (b0 # ob @ [b1, b2, b3]) (c0 # oc @ [c1, c2, c3]))"
proof -
  let ?sa = "a0 # oa @ [a1, a2, a3]" and ?sb = "b0 # ob @ [b1, b2, b3]"
    and ?sc = "c0 # oc @ [c1, c2, c3]"
  let ?addr = "\<lambda>t. (address ?sa t, address ?sb t, address ?sc t)"
  let ?inner = "index_tuples [d1, d2, d3]"
  let ?g = "\<lambda>xs. map (\<lambda>ys. xs @ ys) ?inner"
  let ?ds = "map (\<lambda>i. digits outer (int i)) [0..<nat (prod_list outer)]"
  from pos have opos: "\<forall>d \<in> set outer. 0 < d" by simp
  have block: "block_visits (nat d1) (nat d2) (nat d3) (a1, b1, c1) (a2, b2, c2) (a3, b3, c3)
               (a0 + sum_list (map2 (*) oa (digits outer (int i))),
                b0 + sum_list (map2 (*) ob (digits outer (int i))),
                c0 + sum_list (map2 (*) oc (digits outer (int i))))
      = map ?addr (?g (digits outer (int i)))" for i
    using len by (simp add: block_visits_address length_digits comp_def)
  have "plan_visits (prod_list (outer @ [d1, d2, d3])) (outer @ [d1, d2, d3]) ?sa ?sb ?sc
      = Some (concat (map (\<lambda>i. map ?addr (?g (digits outer (int i))))
          [0..<nat (prod_list outer)]))"
    unfolding plan_visits_deep [OF len pos] block ..
  also have "concat (map (\<lambda>i. map ?addr (?g (digits outer (int i)))) [0..<nat (prod_list outer)])
      = map ?addr (concat (map ?g ?ds))"
    by (simp add: map_concat comp_def)
  finally have pv: "plan_visits (prod_list (outer @ [d1, d2, d3])) (outer @ [d1, d2, d3])
      ?sa ?sb ?sc = Some (map ?addr (concat (map ?g ?ds)))" .
  have "mset (concat (map ?g ?ds)) = mset (concat (map ?g (index_tuples outer)))"
    by (rule mset_concat_map_cong) (rule digits_perm [OF opos])
  also have "\<dots> = mset (index_tuples (outer @ [d1, d2, d3]))"
    by (simp only: index_tuples_append)
  finally have "mset (map ?addr (concat (map ?g ?ds))) =
      mset (naive_loop_nest (outer @ [d1, d2, d3]) ?sa ?sb ?sc)"
    by (simp only: naive_loop_nest_def mset_map)
  with pv show ?thesis by blast
qed

lemma plan_visits_positive:
  assumes "length sa = length dims + 1" and "length sb = length dims + 1"
    and "length sc = length dims + 1"
    and pos: "\<forall>d \<in> set dims. 0 < d"
  shows "\<exists>tr. plan_visits (prod_list dims) dims sa sb sc = Some tr \<and>
           mset tr = mset (naive_loop_nest dims sa sb sc)"
proof (cases dims rule: last_three_cases)
  case 1
  with assms(1-3) obtain a0 b0 c0 where "sa = [a0]" "sb = [b0]" "sc = [c0]"
    by (auto simp: length_Suc_conv)
  with 1 show ?thesis
    by (simp add: plan_visits_0 naive_loop_nest_def index_tuples_def address_def)
next
  case (2 d3)
  with assms(1-3) obtain a0 a3 b0 b3 c0 c3 where
    "sa = [a0, a3]" "sb = [b0, b3]" "sc = [c0, c3]"
    by (auto simp: length_Suc_conv)
  with 2 pos show ?thesis
    by (simp add: plan_visits_1 naive_loop_nest_def)
next
  case (3 d2 d3)
  with assms(1-3) obtain a0 a2 a3 b0 b2 b3 c0 c2 c3 where
    "sa = [a0, a2, a3]" "sb = [b0, b2, b3]" "sc = [c0, c2, c3]"
    by (auto simp: length_Suc_conv)
  with 3 pos show ?thesis
    by (simp add: plan_visits_2 naive_loop_nest_def)
next
  case (4 outer d1 d2 d3)
  with assms(1-3) have l: "length sa = length outer + 4" "length sb = length outer + 4"
    "length sc = length outer + 4"
    by simp_all
  from l(1) obtain a0 oa a1 a2 a3 where sa: "sa = a0 # oa @ [a1, a2, a3]"
    "length oa = length outer"
    by (rule table_split)
  from l(2) obtain b0 ob b1 b2 b3 where sb: "sb = b0 # ob @ [b1, b2, b3]"
    "length ob = length outer"
    by (rule table_split)
  from l(3) obtain c0 oc c1 c2 c3 where sc: "sc = c0 # oc @ [c1, c2, c3]"
    "length oc = length outer"
    by (rule table_split)
  from pos 4 have "\<forall>d \<in> set (outer @ [d1, d2, d3]). 0 < d" by simp
  from plan_visits_deep_mset [OF sa(2) sb(2) sc(2) this] show ?thesis
    unfolding 4 sa(1) sb(1) sc(1) .
qed

section \<open>The claims\<close>

subsection \<open>C1: the matrix-vector scenario\<close>

text \<open>
  Claim C1. A is a buffer of 6 elements of shape \<open>[2,3]\<close> with spec \<open>[-1,-2]\<close>, B a buffer
  of 3 elements of shape \<open>[3]\<close> with spec \<open>[-2]\<close>, C a buffer of 2 elements of shape
  \<open>[2]\<close> with spec \<open>[-1]\<close>. The builder, started from empty output parameters, returns
  6 and a plan; the executor, run on that plan with the arithmetic combine, returns with
  no access outside the buffers, and leaves in C, for \<open>i = 0, 1\<close>, the initial \<open>C[i]\<close>
  plus the sum over \<open>j = 0, 1, 2\<close> of \<open>A[i + 2*j] * B[j]\<close>.
\<close>

theorem C1_matrix_vector_product:
  fixes A B C :: "'a::semiring_0 list"
  assumes "std_sort srt" and "length A = 6" and "length B = 3" and "length C = 2"
  shows "\<exists>p' C'.
           einstein_process srt (dense_vector 6) (dense_vector 3) (dense_vector 2)
             [2, 3] [3] [2] [-1, -2] [-2] [-1] empty_plan = (Inr 6, p') \<and>
           einstein_eval Contraction 6 (iter_dims p') (strides_a p') (strides_b p')
             (strides_c p') A B C = Some C' \<and>
           length C' = 2 \<and>
           (\<forall>i < 2. C' ! i = C ! i + (\<Sum>j < 3. A ! (i + 2 * j) * B ! j))"
proof -
  let ?p' = "\<lparr>iter_dims = [2, 3], strides_a = [0, 1, 2], strides_b = [0, 0, 1],
               strides_c = [0, 1, 0]\<rparr>"
  from assms(1) have srt: "srt by_extent [(-2, 3), (-1, 2)] = [(-1, 2), (-2, 3)]"
    by (rule std_sort_two) simp
  have plan: "einstein_process srt (dense_vector 6) (dense_vector 3) (dense_vector 2)
             [2, 3] [3] [2] [-1, -2] [-2] [-1] empty_plan = (Inr 6, ?p')"
    by (simp add: einstein_process_def dense_vector_def empty_plan_def product_vec_def
      build_dim_map_def collect_def insertion_sort_def by_extent_def wrap_int_def srt)
  have tr: "einstein_eval_trace 6 [2, 3] [0, 1, 2] [0, 0, 1] [0, 1, 0] =
      Some [(0, 0, 0), (2, 1, 0), (4, 2, 0), (1, 0, 1), (3, 1, 1), (5, 2, 1)]"
    by code_simp
  from assms(2) obtain a0 a1 a2 a3 a4 a5 where A: "A = [a0, a1, a2, a3, a4, a5]"
    by (auto simp: eval_nat_numeral length_Suc_conv)
  from assms(3) obtain b0 b1 b2 where B: "B = [b0, b1, b2]"
    by (auto simp: eval_nat_numeral length_Suc_conv)
  from assms(4) obtain c0 c1 where C: "C = [c0, c1]"
    by (auto simp: eval_nat_numeral length_Suc_conv)
  have run: "einstein_eval Contraction 6 [2, 3] [0, 1, 2] [0, 0, 1] [0, 1, 0] A B C =
      Some [c0 + a0 * b0 + a2 * b1 + a4 * b2, c1 + a1 * b0 + a3 * b1 + a5 * b2]"
    unfolding einstein_eval_def einstein_eval_with_trace tr A B C
    by (simp add: contract_at_def in_buffer_def Contraction_def)
  have sums: "\<forall>i < 2. [c0 + a0 * b0 + a2 * b1 + a4 * b2, c1 + a1 * b0 + a3 * b1 + a5 * b2] ! i =
      C ! i + (\<Sum>j < 3. A ! (i + 2 * j) * B ! j)"
    by (simp add: A B C less_Suc_eq numeral_2_eq_2 numeral_3_eq_3 lessThan_Suc add.assoc
        add.commute add.left_commute)
  from plan run sums show ?thesis by (intro exI [of _ ?p']) simp
qed

theorem C1_matrix_vector_product_witness:
  "einstein_process insertion_sort (dense_vector 6) (dense_vector 3) (dense_vector 2)
     [2, 3] [3] [2] [-1, -2] [-2] [-1] empty_plan
   = (Inr 6, \<lparr>iter_dims = [2, 3], strides_a = [0, 1, 2], strides_b = [0, 0, 1],
               strides_c = [0, 1, 0]\<rparr>) \<and>
   einstein_eval Contraction 6 [2, 3] [0, 1, 2] [0, 0, 1] [0, 1, 0]
     [1, 2, 3, 4, 5, 6] [1, 10, 100] [1000, 2000 :: int] = Some [1531, 2642]"
proof -
  have l: "length [1, 2, 3, 4, 5, 6 :: int] = 6" "length [1, 10, 100 :: int] = 3"
    "length [1000, 2000 :: int] = 2"
    by simp_all
  from C1_matrix_vector_product [OF std_sort_insertion_sort l]
  obtain p' C' where
    p: "einstein_process insertion_sort (dense_vector 6) (dense_vector 3) (dense_vector 2)
             [2, 3] [3] [2] [-1, -2] [-2] [-1] empty_plan = (Inr 6, p')"
    and r: "einstein_eval Contraction 6 (iter_dims p') (strides_a p') (strides_b p')
             (strides_c p') [1, 2, 3, 4, 5, 6] [1, 10, 100] [1000, 2000 :: int] = Some C'"
    and len: "length C' = 2"
    and v: "\<forall>i < 2. C' ! i = [1000, 2000] ! i + (\<Sum>j < 3. [1, 2, 3, 4, 5, 6] ! (i + 2 * j) * [1, 10, 100] ! j)"
    by blast
  have p2: "einstein_process insertion_sort (dense_vector 6) (dense_vector 3) (dense_vector 2)
     [2, 3] [3] [2] [-1, -2] [-2] [-1] empty_plan
   = (Inr 6, \<lparr>iter_dims = [2, 3], strides_a = [0, 1, 2], strides_b = [0, 0, 1],
               strides_c = [0, 1, 0]\<rparr>)"
    by (simp add: einstein_process_def dense_vector_def empty_plan_def product_vec_def
      build_dim_map_def collect_def insertion_sort_def by_extent_def wrap_int_def)
  from len obtain x y where C': "C' = [x, y]"
    by (auto simp: numeral_2_eq_2 length_Suc_conv)
  from v have "C' ! 0 = 1531" "C' ! 1 = 2642"
    by (simp_all add: numeral_3_eq_3 lessThan_Suc)
  with C' have "C' = [1531, 2642]" by simp
  moreover from p p2 have "p' = \<lparr>iter_dims = [2, 3], strides_a = [0, 1, 2],
      strides_b = [0, 0, 1], strides_c = [0, 1, 0]\<rparr>"
    by simp
  ultimately show ?thesis using p2 r by simp
qed

subsection \<open>C2: the flattened loops and the naive loop nest\<close>

text \<open>
  Claim C2, as amended. Take a plan whose count is the product of its extents and whose
  stride tables have one slot more than there are extents, and in which no extent is
  negative.
  Then the executor reads the plan without fault, and what it does with any leaf is to
  call it along a sequence of offset triples that is, as a multiset, the sequence of the
  naive loop nest: once for every tuple in the Cartesian product of the ranges
  \<open>0 \<le> i < extent\<close>, each operand addressed at base offset plus the sum of stride times
  value. The order of the visits is the executor's own: the variables before the last
  three run with the first of them fastest.
\<close>

theorem C2_flattened_loops_visit_the_naive_nest:
  assumes "n_iter = prod_list dims"
    and "length sa = length dims + 1" and "length sb = length dims + 1"
    and "length sc = length dims + 1"
    and "\<forall>d \<in> set dims. 0 \<le> d"
  shows "\<exists>tr. einstein_eval_trace n_iter dims sa sb sc = Some tr \<and>
           mset tr = mset (naive_loop_nest dims sa sb sc) \<and>
           (\<forall>(leaf :: ptrs \<Rightarrow> 's \<Rightarrow> 's option) s.
              einstein_eval_with leaf n_iter dims sa sb sc s = visit_all leaf tr s)"
proof -
  have "\<exists>tr. plan_visits n_iter dims sa sb sc = Some tr \<and>
           mset tr = mset (naive_loop_nest dims sa sb sc)"
  proof (cases "n_iter = 0")
    case True
    with assms(1) have "0 \<in> set dims" by (simp add: prod_list_zero_iff)
    then have "naive_loop_nest dims sa sb sc = []"
      by (simp add: naive_loop_nest_def index_tuples_zero)
    with True show ?thesis by (simp add: plan_visits_def)
  next
    case False
    with assms(1) have "0 \<notin> set dims" by (simp add: prod_list_zero_iff)
    with assms(5) have "\<forall>d \<in> set dims. 0 < d" by (metis order_le_less)
    from plan_visits_positive [OF assms(2-4) this] assms(1) show ?thesis by simp
  qed
  then obtain tr where tr: "plan_visits n_iter dims sa sb sc = Some tr"
    "mset tr = mset (naive_loop_nest dims sa sb sc)"
    by blast
  from tr(1) have "einstein_eval_with leaf n_iter dims sa sb sc s = visit_all leaf tr s"
    for leaf :: "ptrs \<Rightarrow> 's \<Rightarrow> 's option" and s
    by (simp add: einstein_eval_with_plan_visits)
  with tr show ?thesis by (simp add: einstein_eval_trace_plan_visits)
qed

theorem C2_flattened_loops_visit_the_naive_nest_witness:
  "einstein_eval_trace 8 [2, 2, 1, 1, 2] [0, 1, 2, 0, 0, 4] [0, 0, 0, 0, 0, 1] [0, 1, 2, 0, 0, 0]
     = Some [(0, 0, 0), (4, 1, 0), (1, 0, 1), (5, 1, 1), (2, 0, 2), (6, 1, 2),
             (3, 0, 3), (7, 1, 3)] \<and>
   naive_loop_nest [2, 2, 1, 1, 2] [0, 1, 2, 0, 0, 4] [0, 0, 0, 0, 0, 1] [0, 1, 2, 0, 0, 0]
     = [(0, 0, 0), (4, 1, 0), (2, 0, 2), (6, 1, 2), (1, 0, 1), (5, 1, 1),
        (3, 0, 3), (7, 1, 3)] \<and>
   mset [(0, 0, 0), (4, 1, 0), (1, 0, 1), (5, 1, 1), (2, 0, 2), (6, 1, 2),
         (3, 0, 3), (7, 1, 3 :: int)]
     = mset [(0, 0, 0), (4, 1, 0), (2, 0, 2), (6, 1, 2), (1, 0, 1), (5, 1, 1),
             (3, 0, 3), (7 :: int, 1 :: int, 3)] \<and>
   einstein_eval Contraction 8 [2, 2, 1, 1, 2] [0, 1, 2, 0, 0, 4] [0, 0, 0, 0, 0, 1]
       [0, 1, 2, 0, 0, 0] [1, 2, 3, 4, 5, 6, 7, 8] [10, 100] [0, 0, 0, 0 :: int]
     = Some [510, 620, 730, 840]"
proof -
  have h: "(8 :: int) = prod_list [2, 2, 1, 1, 2]"
    "length [0, 1, 2, 0, 0, 4 :: int] = length [2, 2, 1, 1, 2 :: int] + 1"
    "length [0, 0, 0, 0, 0, 1 :: int] = length [2, 2, 1, 1, 2 :: int] + 1"
    "length [0, 1, 2, 0, 0, 0 :: int] = length [2, 2, 1, 1, 2 :: int] + 1"
    "\<forall>d \<in> set [2, 2, 1, 1, 2 :: int]. 0 \<le> d"
    by simp_all
  have tr: "einstein_eval_trace 8 [2, 2, 1, 1, 2] [0, 1, 2, 0, 0, 4] [0, 0, 0, 0, 0, 1]
      [0, 1, 2, 0, 0, 0]
     = Some [(0, 0, 0), (4, 1, 0), (1, 0, 1), (5, 1, 1), (2, 0, 2), (6, 1, 2),
             (3, 0, 3), (7, 1, 3)]"
    by code_simp
  have nest: "naive_loop_nest [2, 2, 1, 1, 2] [0, 1, 2, 0, 0, 4] [0, 0, 0, 0, 0, 1]
      [0, 1, 2, 0, 0, 0]
     = [(0, 0, 0), (4, 1, 0), (2, 0, 2), (6, 1, 2), (1, 0, 1), (5, 1, 1),
        (3, 0, 3), (7, 1, 3)]"
    by code_simp
  from C2_flattened_loops_visit_the_naive_nest [OF h]
  obtain t where t: "einstein_eval_trace 8 [2, 2, 1, 1, 2] [0, 1, 2, 0, 0, 4]
        [0, 0, 0, 0, 0, 1] [0, 1, 2, 0, 0, 0] = Some t"
    "mset t = mset (naive_loop_nest [2, 2, 1, 1, 2] [0, 1, 2, 0, 0, 4] [0, 0, 0, 0, 0, 1]
        [0, 1, 2, 0, 0, 0])"
    "\<And>leaf s. einstein_eval_with leaf 8 [2, 2, 1, 1, 2] [0, 1, 2, 0, 0, 4]
        [0, 0, 0, 0, 0, 1] [0, 1, 2, 0, 0, 0] (s :: int list) = visit_all leaf t s"
    by blast
  from t(1) tr have t': "t = [(0, 0, 0), (4, 1, 0), (1, 0, 1), (5, 1, 1), (2, 0, 2), (6, 1, 2),
             (3, 0, 3), (7, 1, 3)]"
    by simp
  have run: "einstein_eval Contraction 8 [2, 2, 1, 1, 2] [0, 1, 2, 0, 0, 4] [0, 0, 0, 0, 0, 1]
       [0, 1, 2, 0, 0, 0] [1, 2, 3, 4, 5, 6, 7, 8] [10, 100] [0, 0, 0, 0 :: int]
     = Some [510, 620, 730, 840]"
    unfolding einstein_eval_def t(3) t'
    by (simp add: contract_at_def in_buffer_def Contraction_def)
  from t(2) show ?thesis unfolding t' nest using tr nest run by simp
qed

text \<open>
  Without the condition on the sign the statement fails. A shape with negative entries
  whose product is the element count passes every assertion of the builder, and the sort
  puts the negative entries first. On the plan the builder returns, whose count 6 is the
  product of its entries and whose tables have 6 slots, the outer loop of the executor
  runs 6 times, on remainders of the truncating \<open>%\<close>, and calls the combine 6 times,
  where a loop nest over the same entries has an empty loop and calls it nowhere.
\<close>

theorem C2_negative_extents_counterexample:
  "einstein_process insertion_sort (dense_vector 6) (dense_vector 1) (dense_vector 1)
     [-2, -3, 1, 1, 1] [] [] [-1, -2, -3, -4, -5] [] [] empty_plan
   = (Inr 6, \<lparr>iter_dims = [-3, -2, 1, 1, 1], strides_a = [0, -2, 1, 6, 6, 6],
               strides_b = [0, 0, 0, 0, 0, 0], strides_c = [0, 0, 0, 0, 0, 0]\<rparr>) \<and>
   (6 :: int) = prod_list [-3, -2, 1, 1, 1] \<and>
   length [0, -2, 1, 6, 6, 6 :: int] = length [-3, -2, 1, 1, 1 :: int] + 1 \<and>
   length [0, 0, 0, 0, 0, 0 :: int] = length [-3, -2, 1, 1, 1 :: int] + 1 \<and>
   einstein_eval_trace 6 [-3, -2, 1, 1, 1] [0, -2, 1, 6, 6, 6] [0, 0, 0, 0, 0, 0]
     [0, 0, 0, 0, 0, 0]
   = Some [(0, 0, 0), (- 2, 0, 0), (- 4, 0, 0), (- 1, 0, 0), (- 3, 0, 0), (- 5, 0, 0)] \<and>
   naive_loop_nest [-3, -2, 1, 1, 1] [0, -2, 1, 6, 6, 6] [0, 0, 0, 0, 0, 0] [0, 0, 0, 0, 0, 0]
   = []"
proof -
  have "einstein_process insertion_sort (dense_vector 6) (dense_vector 1) (dense_vector 1)
     [-2, -3, 1, 1, 1] [] [] [-1, -2, -3, -4, -5] [] [] empty_plan
   = (Inr 6, \<lparr>iter_dims = [-3, -2, 1, 1, 1], strides_a = [0, -2, 1, 6, 6, 6],
               strides_b = [0, 0, 0, 0, 0, 0], strides_c = [0, 0, 0, 0, 0, 0]\<rparr>)"
    by (simp add: einstein_process_def dense_vector_def empty_plan_def product_vec_def
      build_dim_map_def collect_def insertion_sort_def by_extent_def wrap_int_def Let_def)
  moreover have "einstein_eval_trace 6 [-3, -2, 1, 1, 1] [0, -2, 1, 6, 6, 6] [0, 0, 0, 0, 0, 0]
     [0, 0, 0, 0, 0, 0]
   = Some [(0, 0, 0), (- 2, 0, 0), (- 4, 0, 0), (- 1, 0, 0), (- 3, 0, 0), (- 5, 0, 0)]"
    by code_simp
  moreover have "naive_loop_nest [-3, -2, 1, 1, 1] [0, -2, 1, 6, 6, 6] [0, 0, 0, 0, 0, 0]
      [0, 0, 0, 0, 0, 0] = []"
    by code_simp
  ultimately show ?thesis by simp
qed

subsection \<open>C3: extents of size zero\<close>

text \<open>
  Claim C3, as amended. Whenever the builder succeeds on an input in which a dimension of
  extent 0 of some operand (A, B or the result C) is bound to a label, it returns 0; and
  the executor, given 0, returns at once: it calls the combine nowhere, reads no buffer
  and leaves the result buffer as it is.
\<close>

theorem C3_zero_extent_of_a_label:
  assumes "std_sort srt"
    and "einstein_process srt A B C dim_a dim_b dim_c a b c p = (Inr n, p')"
    and "(spec, dims) \<in> {(a, dim_a), (b, dim_b), (c, dim_c)}"
    and "i < length spec" and "spec ! i < 0" and "dims ! i = 0"
  shows "n = 0 \<and>
         einstein_eval_trace n (iter_dims p') (strides_a p') (strides_b p') (strides_c p')
           = Some [] \<and>
         einstein_eval contraction n (iter_dims p') (strides_a p') (strides_b p') (strides_c p')
           a_in b_in c_in = Some c_in"
proof -
  from assms(2) obtain dm where dm: "build_dim_map dim_a dim_b dim_c a b c = Inr dm"
    and n: "n = wrap_int (prod_list (map snd (srt by_extent dm)))"
    by (rule einstein_process_InrE)
  from build_dim_map_operand [OF dm assms(3,4,5)] assms(6)
  have "map_of dm (spec ! i) = Some 0" by simp
  then have "(spec ! i, 0) \<in> set dm" by (rule map_of_SomeD)
  with assms(1) have "(spec ! i, 0) \<in> set (srt by_extent dm)" by (simp add: std_sort_set)
  then have "0 \<in> set (map snd (srt by_extent dm))" by force
  with n have "n = 0" by (simp add: prod_list_zero_member wrap_int_0)
  then show ?thesis
    by (simp add: einstein_eval_trace_def einstein_eval_def einstein_eval_with_zero)
qed

theorem C3_zero_extent_of_a_label_witness:
  "einstein_process insertion_sort (dense_vector 0) (dense_vector 0) (dense_vector 2)
     [2, 0] [0] [2] [-1, -2] [-2] [-1] empty_plan
   = (Inr 0, \<lparr>iter_dims = [0, 2], strides_a = [0, 2, 1], strides_b = [0, 1, 0],
               strides_c = [0, 0, 1]\<rparr>) \<and>
   einstein_eval_trace 0 [0, 2] [0, 2, 1] [0, 1, 0] [0, 0, 1] = Some [] \<and>
   einstein_eval Contraction 0 [0, 2] [0, 2, 1] [0, 1, 0] [0, 0, 1] [] [] [5, 7 :: int]
   = Some [5, 7]"
proof -
  have r: "einstein_process insertion_sort (dense_vector 0) (dense_vector 0) (dense_vector 2)
     [2, 0] [0] [2] [-1, -2] [-2] [-1] empty_plan
   = (Inr 0, \<lparr>iter_dims = [0, 2], strides_a = [0, 2, 1], strides_b = [0, 1, 0],
               strides_c = [0, 0, 1]\<rparr>)"
    by (simp add: einstein_process_def dense_vector_def empty_plan_def product_vec_def
      build_dim_map_def collect_def insertion_sort_def by_extent_def wrap_int_def)
  have op: "([-1, -2], [2, 0]) \<in> {([-1, -2], [2, 0]), ([-2], [0]), ([-1], [2 :: int])}"
    by simp
  have i: "1 < length [-1, -2 :: int]" "[-1, -2 :: int] ! 1 < 0" "[2, 0 :: int] ! 1 = 0"
    by simp_all
  from C3_zero_extent_of_a_label [OF std_sort_insertion_sort r op i,
      of Contraction "[]" "[]" "[5, 7 :: int]"] r
  show ?thesis by simp
qed

theorem C3_zero_extent_of_a_literal_counterexample:
  "0 \<in> set [0 :: int] \<and>
   einstein_process insertion_sort (dense_vector 0) (dense_vector 1) (dense_vector 1)
     [0] [] [] [0] [] [] empty_plan
   = (Inr 1, \<lparr>iter_dims = [], strides_a = [0], strides_b = [0], strides_c = [0]\<rparr>) \<and>
   einstein_eval_trace 1 [] [0] [0] [0] = Some [(0, 0, 0)]"
proof -
  have "einstein_process insertion_sort (dense_vector 0) (dense_vector 1) (dense_vector 1)
     [0] [] [] [0] [] [] empty_plan
   = (Inr 1, \<lparr>iter_dims = [], strides_a = [0], strides_b = [0], strides_c = [0]\<rparr>)"
    by (simp add: einstein_process_def dense_vector_def empty_plan_def product_vec_def
      build_dim_map_def collect_def insertion_sort_def by_extent_def wrap_int_def Let_def)
  moreover have "einstein_eval_trace 1 [] [0] [0] [0] = Some [(0, 0, 0)]"
    by code_simp
  ultimately show ?thesis by simp
qed

subsection \<open>C4: spec lengths\<close>

text \<open>
  Claim C4, as amended. For operand A and for operand B, an index spec whose length
  differs from the length of the shape makes the builder fail with one of its assertions
  and leaves the output parameters as they were: no plan is produced. When the density and
  element-count assertions of lines 42-49 hold, the failure is the spec-length error. For
  the result C the builder compares no lengths of C's own: its only check is that the spec
  of C is not longer than the specs of A and B together (line 54), and a spec longer than
  that is the spec-length error as well.
\<close>

theorem C4_spec_length_of_inputs:
  assumes "length a \<noteq> length dim_a \<or> length b \<noteq> length dim_b \<or> length c > length a + length b"
  shows "snd (einstein_process srt A B C dim_a dim_b dim_c a b c p) = p \<and>
         fst (einstein_process srt A B C dim_a dim_b dim_c a b c p)
           \<in> {Inl NotDenseVector, Inl NumelMismatch, Inl SpecLength} \<and>
         (is_vector A \<and> is_dense A \<and> is_vector B \<and> is_dense B \<and> is_vector C \<and> is_dense C \<and>
          numel A = product_vec dim_a \<and> numel B = product_vec dim_b \<and> numel C = product_vec dim_c
          \<longrightarrow> fst (einstein_process srt A B C dim_a dim_b dim_c a b c p) = Inl SpecLength)"
  using assms unfolding einstein_process_def by auto

theorem C4_spec_length_of_inputs_witness:
  "length [-1, -2 :: int] \<noteq> length [6 :: int] \<and>
   einstein_process insertion_sort (dense_vector 6) (dense_vector 3) (dense_vector 2)
     [6] [3] [2] [-1, -2] [-2] [-1] empty_plan = (Inl SpecLength, empty_plan)"
proof -
  have h: "length [-1, -2 :: int] \<noteq> length [6 :: int] \<or> length [-2 :: int] \<noteq> length [3 :: int]
      \<or> length [-1 :: int] > length [-1, -2 :: int] + length [-2 :: int]"
    by simp
  have "is_vector (dense_vector 6) \<and> is_dense (dense_vector 6) \<and>
        is_vector (dense_vector 3) \<and> is_dense (dense_vector 3) \<and>
        is_vector (dense_vector 2) \<and> is_dense (dense_vector 2) \<and>
        numel (dense_vector 6) = product_vec [6] \<and> numel (dense_vector 3) = product_vec [3] \<and>
        numel (dense_vector 2) = product_vec [2]"
    by (simp add: dense_vector_def product_vec_def)
  with C4_spec_length_of_inputs [OF h, where srt = insertion_sort and A = "dense_vector 6"
      and B = "dense_vector 3" and C = "dense_vector 2" and p = empty_plan and dim_c = "[2]"]
  show ?thesis by (simp add: prod_eq_iff)
qed

theorem C4_result_spec_length_counterexample:
  "length [-1 :: int] \<noteq> length [2, 3 :: int] \<and>
   einstein_process insertion_sort (dense_vector 2) (dense_vector 1) (dense_vector 6)
     [2] [] [2, 3] [-1] [] [-1] empty_plan
   = (Inr 2, \<lparr>iter_dims = [2], strides_a = [0, 1], strides_b = [0, 0], strides_c = [0, 1]\<rparr>)"
  by (simp add: einstein_process_def dense_vector_def empty_plan_def product_vec_def
      build_dim_map_def collect_def insertion_sort_def by_extent_def wrap_int_def)

subsection \<open>C5: sorted extents, iteration count, base offsets\<close>




subsection \<open>C6: the two combine operations\<close>

text \<open>
  Claim C6. On every plan and all buffers, the executor with the bitwise-or combine of
  \<open>bvec_t\<close> and the executor with multiply-accumulate are each the run of their own
  combine over one and the same sequence of offset triples, in the same order: the
  sequence \<open>einstein_eval_trace\<close> gives for the plan, which depends on neither the combine
  nor the buffers. Where the plan itself cannot be read, both are undefined.
\<close>

theorem C6_same_visits_for_both_combines:
  fixes a_bits b_bits c_bits :: "'w::len word list"
    and a_in b_in c_in :: "'a::{plus,times} list"
  shows "einstein_eval Contraction_bvec n_iter dims sa sb sc a_bits b_bits c_bits =
           (case einstein_eval_trace n_iter dims sa sb sc of
              None \<Rightarrow> None
            | Some tr \<Rightarrow> visit_all (contract_at Contraction_bvec a_bits b_bits) tr c_bits) \<and>
         einstein_eval Contraction n_iter dims sa sb sc a_in b_in c_in =
           (case einstein_eval_trace n_iter dims sa sb sc of
              None \<Rightarrow> None
            | Some tr \<Rightarrow> visit_all (contract_at Contraction a_in b_in) tr c_in)"
  by (simp only: einstein_eval_def einstein_eval_with_trace)

theorem C6_same_visits_for_both_combines_witness:
  "einstein_eval_trace 6 [2, 3] [0, 1, 2] [0, 0, 1] [0, 1, 0] =
     Some [(0, 0, 0), (2, 1, 0), (4, 2, 0), (1, 0, 1), (3, 1, 1), (5, 2, 1)] \<and>
   einstein_eval Contraction_bvec 6 [2, 3] [0, 1, 2] [0, 0, 1] [0, 1, 0]
     [1, 2, 4, 8, 16, 32] [64, 128, 256] [0, 0 :: 16 word] = Some [469, 490] \<and>
   einstein_eval Contraction 6 [2, 3] [0, 1, 2] [0, 0, 1] [0, 1, 0]
     [1, 2, 4, 8, 16, 32] [64, 128, 256] [0, 0 :: int] = Some [4672, 9344]"
proof -
  have tr: "einstein_eval_trace 6 [2, 3] [0, 1, 2] [0, 0, 1] [0, 1, 0] =
     Some [(0, 0, 0), (2, 1, 0), (4, 2, 0), (1, 0, 1), (3, 1, 1), (5, 2, 1)]"
    by code_simp
  from C6_same_visits_for_both_combines [of 6 "[2, 3]" "[0, 1, 2]" "[0, 0, 1]" "[0, 1, 0]"
      "[1, 2, 4, 8, 16, 32] :: 16 word list" "[64, 128, 256]" "[0, 0]"
      "[1, 2, 4, 8, 16, 32] :: int list" "[64, 128, 256]" "[0, 0]"]
  show ?thesis
    unfolding tr
    by (simp add: contract_at_def in_buffer_def Contraction_def Contraction_bvec_def)
qed

subsection \<open>C7: errors before any mutation\<close>

text \<open>
  Claim C7. Whenever the builder fails with one of its assertions (density, element count,
  spec length or label conflict), the four output parameters are as they were on entry.
  The builder has no access to a data buffer: its operands are \<open>const\<close> references of
  which it reads \<open>is_vector\<close>, \<open>is_dense\<close> and \<open>numel\<close>, so the output parameters are all
  it could have written.
\<close>

theorem C7_fatal_error_before_mutation:
  assumes "einstein_process srt A B C dim_a dim_b dim_c a b c p = (Inl e, p')"
    and "e \<in> {NotDenseVector, NumelMismatch, SpecLength, LabelConflict}"
  shows "p' = p"
  using einstein_process_Inl_cases [OF assms(1)] assms(2) by auto

theorem C7_fatal_error_before_mutation_witness:
  "einstein_process insertion_sort (dense_vector 2) (dense_vector 3) (dense_vector 1)
     [2] [3] [] [-1] [-1] []
     \<lparr>iter_dims = [7], strides_a = [1, 2], strides_b = [3], strides_c = []\<rparr>
   = (Inl LabelConflict, \<lparr>iter_dims = [7], strides_a = [1, 2], strides_b = [3], strides_c = []\<rparr>)"
proof -
  let ?p = "\<lparr>iter_dims = [7], strides_a = [1, 2], strides_b = [3], strides_c = []\<rparr>"
  let ?r = "einstein_process insertion_sort (dense_vector 2) (dense_vector 3) (dense_vector 1)
     [2] [3] [] [-1] [-1] [] ?p"
  have "fst ?r = Inl LabelConflict"
    by (simp add: einstein_process_def dense_vector_def product_vec_def build_dim_map_def)
  then have r: "?r = (Inl LabelConflict, snd ?r)"
    by (simp add: prod_eq_iff)
  have "LabelConflict \<in> {NotDenseVector, NumelMismatch, SpecLength, LabelConflict}"
    by simp
  from C7_fatal_error_before_mutation [OF r this] r show ?thesis by simp
qed

subsection \<open>C8: a label repeated in one spec\<close>



subsection \<open>C9: output parameters that are not empty on entry\<close>



subsection \<open>C10: labels absent from an operand\<close>

text \<open>
  Claim C10. In a plan built from empty output parameters, let \<open>i\<close> be an iteration variable
  and \<open>- (dim_map_keys ! i)\<close> its label. For every operand (A, B or the result C) whose
  index spec does not contain the label, slot \<open>i + 1\<close> of the operand's stride table is 0,
  and the element the operand is addressed at does not change with the value of
  variable \<open>i\<close>. The label may occur in any of the three specs, the result's included.
\<close>

theorem C10_absent_label_stride_zero:
  assumes "std_sort srt"
    and "einstein_process srt A B C dim_a dim_b dim_c a b c p = (Inr n, p')"
    and "iter_dims p = []"
    and "build_dim_map dim_a dim_b dim_c a b c = Inr dm"
    and "(spec, dims, strides) \<in>
          {(a, dim_a, strides_a p'), (b, dim_b, strides_b p'), (c, dim_c, strides_c p')}"
    and "i < length (iter_dims p')"
    and "- (dim_map_keys srt dm ! i) \<notin> set spec"
  shows "strides ! (i + 1) = 0 \<and> address strides (idx[i := v]) = address strides idx"
proof -
  from einstein_process_InrE [OF assms(2)] assms(3,4)
  have dims: "iter_dims p' = map snd (srt by_extent dm)"
    by (metis append_Nil sum.inject(2))
  with assms(6) have i: "i < length (srt by_extent dm)" by simp
  from einstein_process_strides [OF assms(2,4,5)]
  have sp: "stride_pass (lookupvector (dim_map_keys srt dm)) spec dims 1
           (replicate (length (iter_dims p) + length (srt by_extent dm) + 1) 0) = Inr strides" .
  from stride_pass_length [OF sp] i have len: "i + 1 < length strides" by simp
  have "strides ! (i + 1) = 0"
    using assms(7) i by (intro stride_slot_unused [OF sp]) simp_all
  with len show ?thesis by (simp add: address_broadcast)
qed

theorem C10_absent_label_stride_zero_witness:
  "einstein_process insertion_sort (dense_vector 2) (dense_vector 1) (dense_vector 6)
     [2] [1] [2, 3] [-1] [0] [-1, -2] empty_plan
   = (Inr 6, \<lparr>iter_dims = [2, 3], strides_a = [0, 1, 0], strides_b = [0, 0, 0],
               strides_c = [0, 1, 2]\<rparr>) \<and>
   build_dim_map [2] [1] [2, 3] [-1] [0] [-1, -2] = Inr [(-2, 3), (-1, 2)] \<and>
   - (dim_map_keys insertion_sort [(-2, 3), (-1, 2)] ! 1) = - 2 \<and>
   [0, 1, 0 :: int] ! (1 + 1) = 0 \<and>
   address [0, 1, 0] ([1, 0][1 := 2]) = address [0, 1, 0] [1, 0]"
proof -
  let ?p' = "\<lparr>iter_dims = [2, 3], strides_a = [0, 1, 0], strides_b = [0, 0, 0],
               strides_c = [0, 1, 2]\<rparr>"
  have r: "einstein_process insertion_sort (dense_vector 2) (dense_vector 1) (dense_vector 6)
     [2] [1] [2, 3] [-1] [0] [-1, -2] empty_plan = (Inr 6, ?p')"
    by (simp add: einstein_process_def dense_vector_def empty_plan_def product_vec_def
      build_dim_map_def collect_def insertion_sort_def by_extent_def wrap_int_def)
  have e: "iter_dims empty_plan = []" by (simp add: empty_plan_def)
  have dm: "build_dim_map [2] [1] [2, 3] [-1] [0] [-1, -2] = Inr [(-2, 3), (-1, 2)]"
    by (simp add: build_dim_map_def)
  have k: "- (dim_map_keys insertion_sort [(-2, 3), (-1, 2)] ! 1) = - 2"
    by (simp add: dim_map_keys_def insertion_sort_def by_extent_def)
  have op: "([-1], [2], [0, 1, 0]) \<in>
      {([-1], [2], strides_a ?p'), ([0], [1], strides_b ?p'), ([-1, -2], [2, 3], strides_c ?p')}"
    by simp
  have i: "1 < length (iter_dims ?p')" by simp
  have l: "- (dim_map_keys insertion_sort [(-2, 3), (-1, 2)] ! 1) \<notin> set [-1]"
    by (simp add: dim_map_keys_def insertion_sort_def by_extent_def)
  from C10_absent_label_stride_zero [OF std_sort_insertion_sort r e dm op i l, of "[1, 0]" 2] r dm k
  show ?thesis by simp
qed

end
